theory Spec2Isabelle
  imports Main "HOL-Library.Sublist"
begin

section \<open>JavaScript strings\<close>

text \<open>
  A JavaScript string is modelled as a \<^typ>\<open>string\<close>: a list of 8-bit characters, one per
  UTF-16 code unit, so the model covers the strings whose code units are below 256.
  The functions of this section are the built-in string methods that the controller calls.
\<close>

text \<open>\<open>s.includes(t)\<close>: \<open>t\<close> occurs in \<open>s\<close> as a contiguous run of characters.\<close>

fun str_includes :: "string \<Rightarrow> string \<Rightarrow> bool" where
  "str_includes [] t = (t = [])"
| "str_includes (c # s) t = (prefix t (c # s) \<or> str_includes s t)"

definition startsWith :: "string \<Rightarrow> string \<Rightarrow> bool" where
  "startsWith s p = prefix p s"

definition endsWith :: "string \<Rightarrow> string \<Rightarrow> bool" where
  "endsWith s p = prefix (rev p) (rev s)"

definition lowerChar :: "char \<Rightarrow> char" where
  "lowerChar c = (let n = (of_char c :: nat) in
     if (65 \<le> n \<and> n \<le> 90) \<or> (192 \<le> n \<and> n \<le> 222 \<and> n \<noteq> 215) then char_of (n + 32) else c)"

definition toLowerCase :: "string \<Rightarrow> string" where
  "toLowerCase s = map lowerChar s"

text \<open>White space and line terminators, as \<open>trim\<close> and the conversion to a number strip them.\<close>

definition isWhiteSpace :: "char \<Rightarrow> bool" where
  "isWhiteSpace c = ((of_char c :: nat) \<in> {9, 10, 11, 12, 13, 32, 160})"

definition trim :: "string \<Rightarrow> string" where
  "trim s = rev (dropWhile isWhiteSpace (rev (dropWhile isWhiteSpace s)))"

text \<open>\<open>s.split(sep)\<close> for a one-character separator.\<close>

fun str_split :: "char \<Rightarrow> string \<Rightarrow> string list" where
  "str_split sep [] = [[]]"
| "str_split sep (c # cs) =
     (if c = sep then [] # str_split sep cs
      else (case str_split sep cs of
              [] \<Rightarrow> [[c]]
            | x # xs \<Rightarrow> (c # x) # xs))"

text \<open>\<open>s.replace(p, r)\<close> for a string pattern: the first occurrence only.\<close>

fun str_replace :: "string \<Rightarrow> string \<Rightarrow> string \<Rightarrow> string" where
  "str_replace [] p r = (if p = [] then r else [])"
| "str_replace (c # cs) p r =
     (if prefix p (c # cs) then r @ drop (length p) (c # cs) else c # str_replace cs p r)"

fun join :: "string \<Rightarrow> string list \<Rightarrow> string" where
  "join sep [] = []"
| "join sep [x] = x"
| "join sep (x # y # ys) = x @ sep @ join sep (y # ys)"

section \<open>JavaScript numbers\<close>

text \<open>
  A finite number is kept as an exact decimal \<open>Dec m e\<close>, the value \<open>m * 10 ^ e\<close> with \<open>m\<close>
  not divisible by ten (\<open>Dec 0 0\<close> is zero). JavaScript rounds to binary64: the model
  agrees with it on the text of a number as long as the literal needs no rounding, and it
  does not keep the sign of zero, which \<open>===\<close> does not see either.
\<close>

datatype jsnum = NaN | PosInfinity | NegInfinity | Dec int int

function canon :: "int \<Rightarrow> int \<Rightarrow> jsnum" where
  "canon m e = (if m = 0 then Dec 0 0
                else if m mod 10 = 0 then canon (m div 10) (e + 1)
                else Dec m e)"
  by pat_completeness auto
termination
  by (relation "measure (\<lambda>(m, e). nat \<bar>m\<bar>)") auto

declare canon.simps [simp del]

definition isDigit :: "char \<Rightarrow> bool" where
  "isDigit c = (c \<in> set ''0123456789'')"

definition digitVal :: "char \<Rightarrow> int" where
  "digitVal c = (let n = (of_char c :: int) in
     if 48 \<le> n \<and> n \<le> 57 then n - 48
     else if 97 \<le> n \<and> n \<le> 102 then n - 87
     else n - 55)"

definition numeral_of :: "int \<Rightarrow> string \<Rightarrow> int" where
  "numeral_of base ds = foldl (\<lambda>acc c. acc * base + digitVal c) 0 ds"

text \<open>NonDecimalIntegerLiteral: the prefixes 0x, 0o and 0b (either case) with their digits.\<close>

definition nonDecimalLiteral :: "string \<Rightarrow> jsnum option" where
  "nonDecimalLiteral t =
     (if startsWith t ''0x'' \<or> startsWith t ''0X'' then
        Some (if drop 2 t \<noteq> [] \<and> list_all (\<lambda>c. c \<in> set ''0123456789abcdefABCDEF'') (drop 2 t)
              then canon (numeral_of 16 (drop 2 t)) 0 else NaN)
      else if startsWith t ''0o'' \<or> startsWith t ''0O'' then
        Some (if drop 2 t \<noteq> [] \<and> list_all (\<lambda>c. c \<in> set ''01234567'') (drop 2 t)
              then canon (numeral_of 8 (drop 2 t)) 0 else NaN)
      else if startsWith t ''0b'' \<or> startsWith t ''0B'' then
        Some (if drop 2 t \<noteq> [] \<and> list_all (\<lambda>c. c \<in> set ''01'') (drop 2 t)
              then canon (numeral_of 2 (drop 2 t)) 0 else NaN)
      else None)"

text \<open>ExponentPart: nothing, or e/E, an optional sign and at least one digit.\<close>

definition exponentPart :: "string \<Rightarrow> int option" where
  "exponentPart r =
     (if r = [] then Some 0
      else if hd r \<in> set ''eE'' then
        (let u = tl r;
             neg = startsWith u ''-'';
             ds = (if startsWith u ''-'' \<or> startsWith u ''+'' then tl u else u)
         in if ds \<noteq> [] \<and> list_all isDigit ds
              then Some (if neg then - numeral_of 10 ds else numeral_of 10 ds)
            else None)
      else None)"

text \<open>StrUnsignedDecimalLiteral other than Infinity: digits, an optional fraction and an
  optional exponent, with a digit on at least one side of the point.\<close>

definition unsignedDecimal :: "string \<Rightarrow> (int \<times> int) option" where
  "unsignedDecimal u =
     (let ip = takeWhile isDigit u;
          r1 = dropWhile isDigit u;
          fp = (if startsWith r1 ''.'' then takeWhile isDigit (tl r1) else []);
          r2 = (if startsWith r1 ''.'' then dropWhile isDigit (tl r1) else r1)
      in if ip = [] \<and> fp = [] then None
         else (case exponentPart r2 of
                 None \<Rightarrow> None
               | Some ex \<Rightarrow> Some (numeral_of 10 (ip @ fp), ex - int (length fp))))"

definition strDecimalLiteral :: "string \<Rightarrow> jsnum" where
  "strDecimalLiteral t =
     (let neg = startsWith t ''-'';
          u = (if startsWith t ''-'' \<or> startsWith t ''+'' then tl t else t)
      in if u = ''Infinity'' then (if neg then NegInfinity else PosInfinity)
         else (case unsignedDecimal u of
                 None \<Rightarrow> NaN
               | Some (m, e) \<Rightarrow> canon (if neg then - m else m) e))"

text \<open>\<open>Number(s)\<close> for a string \<open>s\<close>; \<open>isNaN(s)\<close> is \<open>StringToNumber s = NaN\<close>.
  A blank string is 0.\<close>

definition StringToNumber :: "string \<Rightarrow> jsnum" where
  "StringToNumber s =
     (let t = trim s
      in if t = [] then Dec 0 0
         else (case nonDecimalLiteral t of
                 Some n \<Rightarrow> n
               | None \<Rightarrow> strDecimalLiteral t))"

function digits :: "int \<Rightarrow> string" where
  "digits n = (if n < 10 then [char_of (48 + n)] else digits (n div 10) @ [char_of (48 + n mod 10)])"
  by pat_completeness auto
termination
  by (relation "measure nat") auto

declare digits.simps [simp del]

text \<open>Number::toString in radix 10, from the digits of \<open>s\<close> (\<open>k\<close> of them) and the
  position \<open>n\<close> of the decimal point.\<close>

definition positiveToString :: "int \<Rightarrow> int \<Rightarrow> string" where
  "positiveToString s e =
     (let ds = digits s; k = int (length ds); n = k + e
      in if k \<le> n \<and> n \<le> 21 then ds @ replicate (nat (n - k)) CHR ''0''
         else if 0 < n \<and> n \<le> 21 then take (nat n) ds @ ''.'' @ drop (nat n) ds
         else if - 6 < n \<and> n \<le> 0 then ''0.'' @ replicate (nat (- n)) CHR ''0'' @ ds
         else (let ex = (if n - 1 < 0 then ''-'' else ''+'') @ digits \<bar>n - 1\<bar>
               in if k = 1 then ds @ ''e'' @ ex
                  else take 1 ds @ ''.'' @ drop 1 ds @ ''e'' @ ex))"

fun numberToString :: "jsnum \<Rightarrow> string" where
  "numberToString NaN = ''NaN''"
| "numberToString PosInfinity = ''Infinity''"
| "numberToString NegInfinity = ''-Infinity''"
| "numberToString (Dec m e) =
     (if m = 0 then ''0''
      else if m < 0 then ''-'' @ positiveToString (- m) e
      else positiveToString m e)"

section \<open>JavaScript values and JSON\<close>

text \<open>
  The values that reach the normalizer: the primitives, dates, arrays and plain objects.
  A \<open>Date\<close> is kept as the text it was built from. An object is the list of its own
  properties in property order.
\<close>

datatype jsvalue =
    JUndefined
  | JNull
  | JBool bool
  | JNum jsnum
  | JStr string
  | JDate string
  | JArr "jsvalue list"
  | JObj "(string \<times> jsvalue) list"

datatype error = InvalidOperator | SyntaxError | TypeError

text \<open>An array index: the canonical decimal form of an integer below \<open>2^32 - 1\<close>.\<close>

definition isArrayIndex :: "string \<Rightarrow> bool" where
  "isArrayIndex k = (k \<noteq> [] \<and> list_all isDigit k \<and> (k = ''0'' \<or> hd k \<noteq> CHR ''0'')
                     \<and> numeral_of 10 k < 4294967295)"

text \<open>The place of a new own property in the property order: integer keys first, ascending,
  then the other keys in the order of their creation.\<close>

fun insertProp :: "string \<Rightarrow> 'a \<Rightarrow> (string \<times> 'a) list \<Rightarrow> (string \<times> 'a) list" where
  "insertProp k v [] = [(k, v)]"
| "insertProp k v ((k', v') # ps) =
     (if isArrayIndex k \<and> (\<not> isArrayIndex k' \<or> numeral_of 10 k < numeral_of 10 k')
        then (k, v) # (k', v') # ps
      else (k', v') # insertProp k v ps)"

text \<open>\<open>obj[k] = v\<close> on a plain object: an existing property keeps its place.\<close>

definition setProp :: "string \<Rightarrow> 'a \<Rightarrow> (string \<times> 'a) list \<Rightarrow> (string \<times> 'a) list" where
  "setProp k v ps =
     (if k \<in> fst ` set ps then map (\<lambda>(k', v'). if k' = k then (k', v) else (k', v')) ps
      else insertProp k v ps)"

definition hexDigit :: "nat \<Rightarrow> char" where
  "hexDigit n = ''0123456789abcdef'' ! (n mod 16)"

definition escapeChar :: "char \<Rightarrow> string" where
  "escapeChar c = (let n = (of_char c :: nat) in
     if n = 34 then [CHR 0x5C, CHR 0x22]
     else if n = 92 then [CHR 0x5C, CHR 0x5C]
     else if n = 8 then [CHR 0x5C, CHR ''b'']
     else if n = 12 then [CHR 0x5C, CHR ''f'']
     else if n = 10 then [CHR 0x5C, CHR ''n'']
     else if n = 13 then [CHR 0x5C, CHR ''r'']
     else if n = 9 then [CHR 0x5C, CHR ''t'']
     else if n < 32 then [CHR 0x5C, CHR ''u'', CHR ''0'', CHR ''0'', hexDigit (n div 16), hexDigit n]
     else [c])"

definition quoteJSON :: "string \<Rightarrow> string" where
  "quoteJSON s = [CHR 0x22] @ concat (map escapeChar s) @ [CHR 0x22]"

text \<open>\<open>JSON.stringify(v)\<close>; \<open>None\<close> is the result \<open>undefined\<close>. A date prints as its text
  in quotes (JavaScript prints the same instant in UTC).\<close>

primrec JSON_stringify :: "jsvalue \<Rightarrow> string option" where
  "JSON_stringify JUndefined = None"
| "JSON_stringify JNull = Some ''null''"
| "JSON_stringify (JBool b) = Some (if b then ''true'' else ''false'')"
| "JSON_stringify (JNum n) = Some (case n of Dec m e \<Rightarrow> numberToString n | _ \<Rightarrow> ''null'')"
| "JSON_stringify (JStr s) = Some (quoteJSON s)"
| "JSON_stringify (JDate d) = Some (quoteJSON d)"
| "JSON_stringify (JArr xs) =
     Some (''['' @ join '','' (map (\<lambda>r. case r of None \<Rightarrow> ''null'' | Some t \<Rightarrow> t)
                                 (map JSON_stringify xs)) @ '']'')"
| "JSON_stringify (JObj ps) =
     Some (''{'' @ join '',''
             (concat (map (\<lambda>(k, r). case r of None \<Rightarrow> [] | Some t \<Rightarrow> [quoteJSON k @ '':'' @ t])
                          (map (map_prod id JSON_stringify) ps))) @ ''}'')"

text \<open>\<open>String(v)\<close>.\<close>

primrec toString :: "jsvalue \<Rightarrow> string" where
  "toString JUndefined = ''undefined''"
| "toString JNull = ''null''"
| "toString (JBool b) = (if b then ''true'' else ''false'')"
| "toString (JNum n) = numberToString n"
| "toString (JStr s) = s"
| "toString (JDate d) = d"
| "toString (JArr xs) =
     join '','' (map (\<lambda>(x, t). if x = JUndefined \<or> x = JNull then [] else t)
                     (zip xs (map toString xs)))"
| "toString (JObj ps) = ''[object Object]''"

subsection \<open>JSON.parse\<close>

definition isJSONWhitespace :: "char \<Rightarrow> bool" where
  "isJSONWhitespace c = ((of_char c :: int) \<in> {9, 10, 13, 32})"

definition skipWs :: "string \<Rightarrow> string" where
  "skipWs s = dropWhile isJSONWhitespace s"

definition isHexDigit :: "char \<Rightarrow> bool" where
  "isHexDigit c = (c \<in> set ''0123456789abcdefABCDEF'')"

text \<open>The characters of a JSON string after its opening quote, up to the closing one.
  A four-digit escape above 00FF is outside the 8-bit strings of the model.\<close>

fun parseStringBody :: "string \<Rightarrow> string \<Rightarrow> (string \<times> string) option" where
  "parseStringBody [] acc = None"
| "parseStringBody (c # cs) acc =
     (if c = CHR 0x22 then Some (acc, cs)
      else if c = CHR 0x5C then
        (case cs of
           [] \<Rightarrow> None
         | e # r \<Rightarrow>
             if e = CHR 0x22 \<or> e = CHR 0x5C \<or> e = CHR ''/'' then parseStringBody r (acc @ [e])
             else if e = CHR ''b'' then parseStringBody r (acc @ [CHR 0x08])
             else if e = CHR ''f'' then parseStringBody r (acc @ [CHR 0x0C])
             else if e = CHR ''n'' then parseStringBody r (acc @ [CHR 0x0A])
             else if e = CHR ''r'' then parseStringBody r (acc @ [CHR 0x0D])
             else if e = CHR ''t'' then parseStringBody r (acc @ [CHR 0x09])
             else if e = CHR ''u'' then
               (case r of
                  h1 # h2 # h3 # h4 # r' \<Rightarrow>
                    if list_all isHexDigit [h1, h2, h3, h4] \<and> numeral_of 16 [h1, h2, h3, h4] < 256
                      then parseStringBody r' (acc @ [char_of (numeral_of 16 [h1, h2, h3, h4])])
                    else None
                | _ \<Rightarrow> None)
             else None)
      else if (of_char c :: int) < 32 then None
      else parseStringBody cs (acc @ [c]))"

text \<open>The JSON number grammar: \<open>-? (0 | [1-9][0-9]*) (. [0-9]+)? ([eE] [+-]? [0-9]+)?\<close>\<close>

definition isJSONNumber :: "string \<Rightarrow> bool" where
  "isJSONNumber tok =
     (let u = (if startsWith tok ''-'' then tl tok else tok);
          ip = takeWhile isDigit u;
          r1 = dropWhile isDigit u;
          fp = (if startsWith r1 ''.'' then takeWhile isDigit (tl r1) else []);
          r2 = (if startsWith r1 ''.'' then dropWhile isDigit (tl r1) else r1)
      in ip \<noteq> [] \<and> (ip = ''0'' \<or> hd ip \<noteq> CHR ''0'')
         \<and> (startsWith r1 ''.'' \<longrightarrow> fp \<noteq> [])
         \<and> exponentPart r2 \<noteq> None)"

definition isNumberChar :: "char \<Rightarrow> bool" where
  "isNumberChar c = (c \<in> set ''+-.eE0123456789'')"

text \<open>A recursive-descent parser. The first argument bounds the number of nested calls;
  \<open>JSON_parse\<close> starts it above the length of the text, and every call consumes a character.\<close>

fun parseValue :: "nat \<Rightarrow> string \<Rightarrow> (jsvalue \<times> string) option"
  and parseElements :: "nat \<Rightarrow> string \<Rightarrow> jsvalue list \<Rightarrow> (jsvalue list \<times> string) option"
  and parseMembers :: "nat \<Rightarrow> string \<Rightarrow> (string \<times> jsvalue) list \<Rightarrow> ((string \<times> jsvalue) list \<times> string) option"
where
  "parseValue 0 s = None"
| "parseValue (Suc n) s =
     (case skipWs s of
        [] \<Rightarrow> None
      | c # r \<Rightarrow>
          if c = CHR ''{'' then
            (if startsWith (skipWs r) ''}'' then Some (JObj [], tl (skipWs r))
             else map_option (\<lambda>(ps, r'). (JObj ps, r')) (parseMembers n r []))
          else if c = CHR ''['' then
            (if startsWith (skipWs r) '']'' then Some (JArr [], tl (skipWs r))
             else map_option (\<lambda>(xs, r'). (JArr xs, r')) (parseElements n r []))
          else if c = CHR 0x22 then map_option (\<lambda>(t, r'). (JStr t, r')) (parseStringBody r [])
          else if startsWith (c # r) ''true'' then Some (JBool True, drop 4 (c # r))
          else if startsWith (c # r) ''false'' then Some (JBool False, drop 5 (c # r))
          else if startsWith (c # r) ''null'' then Some (JNull, drop 4 (c # r))
          else if isJSONNumber (takeWhile isNumberChar (c # r))
            then Some (JNum (strDecimalLiteral (takeWhile isNumberChar (c # r))),
                       dropWhile isNumberChar (c # r))
          else None)"
| "parseElements 0 s acc = None"
| "parseElements (Suc n) s acc =
     (case parseValue n s of
        None \<Rightarrow> None
      | Some (v, r) \<Rightarrow>
          if startsWith (skipWs r) '','' then parseElements n (tl (skipWs r)) (acc @ [v])
          else if startsWith (skipWs r) '']'' then Some (acc @ [v], tl (skipWs r))
          else None)"
| "parseMembers 0 s acc = None"
| "parseMembers (Suc n) s acc =
     (if startsWith (skipWs s) [CHR 0x22] then
        (case parseStringBody (tl (skipWs s)) [] of
           None \<Rightarrow> None
         | Some (k, r1) \<Rightarrow>
             if startsWith (skipWs r1) '':'' then
               (case parseValue n (tl (skipWs r1)) of
                  None \<Rightarrow> None
                | Some (v, r2) \<Rightarrow>
                    if startsWith (skipWs r2) '','' then parseMembers n (tl (skipWs r2)) (setProp k v acc)
                    else if startsWith (skipWs r2) ''}'' then Some (setProp k v acc, tl (skipWs r2))
                    else None)
             else None)
      else None)"

text \<open>\<open>JSON.parse(s)\<close>; \<open>None\<close> is the SyntaxError.\<close>

definition JSON_parse :: "string \<Rightarrow> jsvalue option" where
  "JSON_parse s =
     (case parseValue (Suc (length s)) s of
        None \<Rightarrow> None
      | Some (v, r) \<Rightarrow> if skipWs r = [] then Some v else None)"

section \<open>The validator predicates\<close>

text \<open>
  The predicates of the validator package, which the repository imports.

  Modelled from the spec: \<open>isObject\<close>, \<open>isNull\<close>, \<open>isString\<close>, \<open>isArray\<close> and \<open>isNumber\<close>
  tell the kinds of value apart: a structured value (null, a date, a sequence or a mapping)
  is an object, as \<open>typeof\<close> has it.
\<close>

definition isObject :: "jsvalue \<Rightarrow> bool" where
  "isObject v = (case v of JNull \<Rightarrow> True | JDate d \<Rightarrow> True | JArr xs \<Rightarrow> True | JObj ps \<Rightarrow> True | _ \<Rightarrow> False)"

definition isNull :: "jsvalue \<Rightarrow> bool" where
  "isNull v = (v = JNull)"

definition isString :: "jsvalue \<Rightarrow> bool" where
  "isString v = (case v of JStr s \<Rightarrow> True | _ \<Rightarrow> False)"

definition isArray :: "jsvalue \<Rightarrow> bool" where
  "isArray v = (case v of JArr xs \<Rightarrow> True | _ \<Rightarrow> False)"

definition isNumber :: "jsvalue \<Rightarrow> bool" where
  "isNumber v = (case v of JNum n \<Rightarrow> n \<noteq> NaN | _ \<Rightarrow> False)"

text \<open>Modelled from the spec: \<open>isJSON\<close> is the test that a value is structurally valid:
  the value has a JSON text, and that text parses. The source asks it only after
  \<open>isNumber\<close>, \<open>isString\<close> and \<open>isArray\<close> have failed, so on its own it holds of a
  number, a string and a sequence too, and of a date, whose JSON text is a string.\<close>

definition isJSON :: "jsvalue \<Rightarrow> bool" where
  "isJSON v = (case JSON_stringify v of None \<Rightarrow> False | Some t \<Rightarrow> JSON_parse t \<noteq> None)"

text \<open>Modelled from the spec: \<open>isExist\<close> fails on an absent value and on a blank key, which
  the sort compiler skips.\<close>

definition isExist :: "jsvalue \<Rightarrow> bool" where
  "isExist v = (v \<noteq> JUndefined \<and> v \<noteq> JNull \<and> v \<noteq> JStr [])"

text \<open>Modelled from the spec: \<open>isISO8601Date\<close> recognises the ISO-8601 date/time grammar,
  here a calendar date \<open>YYYY-MM-DD\<close>, alone or followed by \<open>T\<close>, a time \<open>hh:mm\<close>,
  \<open>hh:mm:ss\<close> or \<open>hh:mm:ss.fff\<close>, and a zone: none, \<open>Z\<close> or \<open>+hh:mm\<close> / \<open>-hh:mm\<close>.\<close>

definition isISOZone :: "string \<Rightarrow> bool" where
  "isISOZone z = (z = [] \<or> z = ''Z'' \<or>
     (length z = 6 \<and> hd z \<in> set ''+-'' \<and> list_all isDigit (take 2 (tl z)) \<and>
      z ! 3 = CHR '':'' \<and> list_all isDigit (drop 4 z)))"

definition isISOTime :: "string \<Rightarrow> bool" where
  "isISOTime t =
     (5 \<le> length t \<and> list_all isDigit (take 2 t) \<and> t ! 2 = CHR '':'' \<and>
      list_all isDigit (take 2 (drop 3 t)) \<and>
      (let r = drop 5 t in
         if startsWith r '':'' then
           3 \<le> length r \<and> list_all isDigit (take 2 (tl r)) \<and>
           (let r2 = drop 3 r in
              if startsWith r2 ''.''
                then takeWhile isDigit (tl r2) \<noteq> [] \<and> isISOZone (dropWhile isDigit (tl r2))
              else isISOZone r2)
         else isISOZone r))"

definition isISO8601Date :: "string \<Rightarrow> bool" where
  "isISO8601Date s =
     (10 \<le> length s \<and> list_all isDigit (take 4 s) \<and> s ! 4 = CHR ''-'' \<and>
      list_all isDigit (take 2 (drop 5 s)) \<and> s ! 7 = CHR ''-'' \<and>
      list_all isDigit (take 2 (drop 8 s)) \<and>
      (drop 10 s = [] \<or> (s ! 10 = CHR ''T'' \<and> isISOTime (drop 11 s))))"

section \<open>The value normalizer\<close>

text \<open>The textual form \<open>tmp\<close> of the input: \<open>JSON.stringify\<close> for an object that is not
  null, \<open>String\<close> otherwise.\<close>

definition textualForm :: "jsvalue \<Rightarrow> string option" where
  "textualForm v = (if isObject v \<and> \<not> isNull v then JSON_stringify v else Some (toString v))"

text \<open>
  \<open>normalize\<close> calls itself on the parsed text, on the items of an array (\<open>text.map\<close>) and
  on the entries of an object (\<open>Object.entries(o).forEach\<close>). The three are one recursive
  function over the work still to do; \<open>None\<close> stands for a call that does not return, and
  an exception is the left summand. The entries \<open>dateString\<close> and \<open>$regex\<close> become strings.
\<close>

datatype work = Single jsvalue | Elements "jsvalue list" | Entries "(string \<times> jsvalue) list"

partial_function (option) normalizeWork :: "work \<Rightarrow> (error + jsvalue) option" where
  "normalizeWork w =
     (case w of
        Single v \<Rightarrow>
          (case textualForm v of
             None \<Rightarrow> Some (Inl TypeError)
           | Some tmp \<Rightarrow>
               if str_includes tmp ''$function'' \<or> str_includes tmp ''$accumulator''
                 then Some (Inl InvalidOperator)
               else if isString v \<and> startsWith (toString v) ''{'' \<and> endsWith (toString v) ''}'' then
                 (case JSON_parse (toString v) of
                    None \<Rightarrow> Some (Inl SyntaxError)
                  | Some parsed \<Rightarrow> normalizeWork (Single parsed))
               else if toLowerCase tmp = ''true'' then Some (Inr (JBool True))
               else if toLowerCase tmp = ''false'' then Some (Inr (JBool False))
               else if StringToNumber tmp \<noteq> NaN then Some (Inr (JNum (StringToNumber tmp)))
               else if isISO8601Date tmp then Some (Inr (JDate tmp))
               else if isArray v then normalizeWork (Elements (case v of JArr xs \<Rightarrow> xs | _ \<Rightarrow> []))
               else if \<not> isNumber v \<and> \<not> isString v \<and> \<not> isArray v \<and> isJSON v then
                 (case JSON_parse tmp of
                    None \<Rightarrow> Some (Inl SyntaxError)
                  | Some obj \<Rightarrow>
                      (case obj of
                         JObj ps \<Rightarrow> normalizeWork (Entries ps)
                       | JArr xs \<Rightarrow> normalizeWork (Elements xs)
                       | JNull \<Rightarrow> Some (Inl TypeError)
                       | JUndefined \<Rightarrow> Some (Inl TypeError)
                       | JStr s \<Rightarrow> if s = [] then Some (Inr obj) else Some (Inl TypeError)
                       | _ \<Rightarrow> Some (Inr obj)))
               else Some (Inr v))
      | Elements xs \<Rightarrow>
          (case xs of
             [] \<Rightarrow> Some (Inr (JArr []))
           | x # rest \<Rightarrow>
               Option.bind (normalizeWork (Single x)) (\<lambda>r.
                 case r of
                   Inl e \<Rightarrow> Some (Inl e)
                 | Inr y \<Rightarrow>
                     Option.bind (normalizeWork (Elements rest)) (\<lambda>rs.
                       case rs of
                         Inl e \<Rightarrow> Some (Inl e)
                       | Inr ys \<Rightarrow> Some (Inr (JArr (y # (case ys of JArr l \<Rightarrow> l | _ \<Rightarrow> [])))))))
      | Entries ps \<Rightarrow>
          (case ps of
             [] \<Rightarrow> Some (Inr (JObj []))
           | (k, x) # rest \<Rightarrow>
               Option.bind
                 (if k = ''dateString'' \<or> k = ''$regex'' then Some (Inr (JStr (toString x)))
                  else normalizeWork (Single x)) (\<lambda>r.
                 case r of
                   Inl e \<Rightarrow> Some (Inl e)
                 | Inr y \<Rightarrow>
                     Option.bind (normalizeWork (Entries rest)) (\<lambda>rs.
                       case rs of
                         Inl e \<Rightarrow> Some (Inl e)
                       | Inr ys \<Rightarrow> Some (Inr (JObj ((k, y) # (case ys of JObj l \<Rightarrow> l | _ \<Rightarrow> []))))))))"

definition normalize :: "jsvalue \<Rightarrow> (error + jsvalue) option" where
  "normalize v = normalizeWork (Single v)"

section \<open>The pair tokenizer\<close>

record pair =
  startIndex :: int
  endIndex :: int
  key :: string
  "value" :: string

definition kStart :: string where "kStart = ''{[''"
definition kEnd :: string where "kEnd = ''}]''"
definition kKeyAllowedCharacters :: string where
  "kKeyAllowedCharacters = ''abcdefghijklmnopqrstuvwxyzABCDEFGHIJKLMNOPQRSTUVWXYZ0123456789.$''"
definition kDelimiter :: string where "kDelimiter = '':,''"

text \<open>\<open>text[i]\<close>: a string of one character, or \<open>undefined\<close> outside the string.\<close>

definition charAt :: "string \<Rightarrow> int \<Rightarrow> string option" where
  "charAt s i = (if 0 \<le> i \<and> i < int (length s) then Some [s ! nat i] else None)"

text \<open>What \<open>includes\<close> and \<open>+=\<close> make of \<open>text[i]\<close>: \<open>undefined\<close> becomes its name.\<close>

definition toStr :: "string option \<Rightarrow> string" where
  "toStr c = (case c of None \<Rightarrow> ''undefined'' | Some s \<Rightarrow> s)"

text \<open>The \<open>for\<close> loop of \<open>findNextPair\<close>, from index \<open>i\<close>, with the locals \<open>foundKey\<close>,
  \<open>nested\<close> and \<open>result\<close>; \<open>break\<close> returns the result.\<close>

function findNextPair_loop :: "string \<Rightarrow> int \<Rightarrow> bool \<Rightarrow> int \<Rightarrow> pair \<Rightarrow> pair" where
  "findNextPair_loop text i foundKey nested result =
     (if i < int (length text) then
        (let char = charAt text i in
         if \<not> foundKey then
           (if str_includes kKeyAllowedCharacters (toStr char)
              then findNextPair_loop text (i + 1) foundKey nested (result\<lparr>key := key result @ toStr char\<rparr>)
            else if char = Some [kDelimiter ! 0]
              then findNextPair_loop text (i + 1) True nested result
            else findNextPair_loop text (i + 1) foundKey nested result)
         else
           (let nested1 = (if str_includes kStart (toStr char) then nested + 1 else nested);
                nested2 = (if str_includes kEnd (toStr char) then nested1 - 1 else nested1)
            in if nested2 = 0 \<and> char = Some [kDelimiter ! 1]
                 then result\<lparr>endIndex := i + 1\<rparr>
               else findNextPair_loop text (i + 1) foundKey nested2
                      (result\<lparr>value := value result @ toStr char\<rparr>)))
      else result)"
  by pat_completeness auto
termination
  by (relation "measure (\<lambda>(text, i, foundKey, nested, result). nat (int (length text) - i))") auto

declare findNextPair_loop.simps [simp del]

definition findNextPair :: "string \<Rightarrow> int \<Rightarrow> pair" where
  "findNextPair text start =
     findNextPair_loop text start False 0
       \<lparr>startIndex = start, endIndex = 0, key = '''', value = ''''\<rparr>"

definition transformRegExpSearch :: "jsvalue \<Rightarrow> jsvalue" where
  "transformRegExpSearch v =
     (case v of
        JStr s \<Rightarrow> if \<not> startsWith s ''{'' \<and> \<not> endsWith s ''}''
                    then JObj [(''$regex'', JStr s), (''$options'', JStr ''i'')]
                  else v
      | _ \<Rightarrow> v)"

section \<open>The controller\<close>

text \<open>
  Modelled from the spec: the aggregate builder is an ordered, appendable, concatenable
  sequence of stages; \<open>match\<close>, \<open>sort\<close>, \<open>limit\<close> and \<open>skip\<close> append one stage each and
  \<open>concat\<close> appends the stages of another builder in their order.
\<close>

datatype stage =
    Match jsvalue
  | Sort "(string \<times> int) list"
  | Limit int
  | Skip int
  | Stage jsvalue

type_synonym AggregateBuilder = "stage list"

definition builder_match :: "jsvalue \<Rightarrow> AggregateBuilder \<Rightarrow> AggregateBuilder" where
  "builder_match opt builder = builder @ [Match opt]"

definition builder_sort :: "(string \<times> int) list \<Rightarrow> AggregateBuilder \<Rightarrow> AggregateBuilder" where
  "builder_sort opt builder = builder @ [Sort opt]"

definition builder_limit :: "int \<Rightarrow> AggregateBuilder \<Rightarrow> AggregateBuilder" where
  "builder_limit n builder = builder @ [Limit n]"

definition builder_skip :: "int \<Rightarrow> AggregateBuilder \<Rightarrow> AggregateBuilder" where
  "builder_skip n builder = builder @ [Skip n]"

definition builder_concat :: "AggregateBuilder \<Rightarrow> AggregateBuilder \<Rightarrow> AggregateBuilder" where
  "builder_concat builder other = builder @ other"

text \<open>The fields of the controller that the compiler reads; \<open>buildAggregateBuilder\<close> is
  the result of the method of that name, which a subclass overrides (the base class
  returns an empty builder).\<close>

record controller =
  autoRegExpSearch :: bool
  searchFields :: "string list"
  postMatchKeywords :: "string list"
  buildAggregateBuilder :: AggregateBuilder

text \<open>\<open>this.searchFields.forEach\<close> in \<open>computePreQuery\<close>.\<close>

fun searchFields_forEach :: "string list \<Rightarrow> jsvalue \<Rightarrow> jsvalue list \<Rightarrow> (error + jsvalue list) option" where
  "searchFields_forEach [] search sub = Some (Inr sub)"
| "searchFields_forEach (field # fs) search sub =
     (case normalize search of
        None \<Rightarrow> None
      | Some (Inl e) \<Rightarrow> Some (Inl e)
      | Some (Inr v) \<Rightarrow> searchFields_forEach fs search (sub @ [JObj [(field, v)]]))"

text \<open>The inner loops over \<open>postMatchKeywords\<close>, with the local \<open>shouldAdd\<close>.\<close>

fun preShouldAdd :: "string list \<Rightarrow> string \<Rightarrow> bool \<Rightarrow> bool" where
  "preShouldAdd [] k shouldAdd = shouldAdd"
| "preShouldAdd (kw # kws) k shouldAdd =
     (if \<not> shouldAdd then shouldAdd
      else preShouldAdd kws k (if str_includes k kw then False else shouldAdd))"

fun postShouldAdd :: "string list \<Rightarrow> string \<Rightarrow> bool \<Rightarrow> bool" where
  "postShouldAdd [] k shouldAdd = shouldAdd"
| "postShouldAdd (kw # kws) k shouldAdd =
     (if shouldAdd then shouldAdd
      else postShouldAdd kws k (if str_includes k kw then True else shouldAdd))"

text \<open>The loops over the filter string, from index \<open>i\<close> with the array \<open>arr\<close>. The source
  sets \<open>i = endIndex - 1\<close> and the loop header adds one. The loop may run forever.\<close>

partial_function (option) preQuery_loop ::
    "string list \<Rightarrow> string \<Rightarrow> int \<Rightarrow> jsvalue list \<Rightarrow> (error + jsvalue list) option" where
  "preQuery_loop kws ftext i arr =
     (if i \<le> int (length ftext) then
        (let p = findNextPair ftext i in
         if key p = [] \<and> value p = [] then Some (Inr arr)
         else if preShouldAdd kws (key p) True then
           (case normalize (JStr (value p)) of
              None \<Rightarrow> None
            | Some (Inl e) \<Rightarrow> Some (Inl e)
            | Some (Inr v) \<Rightarrow> preQuery_loop kws ftext (endIndex p - 1 + 1) (arr @ [JObj [(key p, v)]]))
         else preQuery_loop kws ftext (endIndex p - 1 + 1) arr)
      else Some (Inr arr))"

partial_function (option) postQuery_loop ::
    "string list \<Rightarrow> string \<Rightarrow> int \<Rightarrow> jsvalue list \<Rightarrow> (error + jsvalue list) option" where
  "postQuery_loop kws ftext i arr =
     (if i \<le> int (length ftext) then
        (let p = findNextPair ftext i in
         if key p = [] \<and> value p = [] then Some (Inr arr)
         else if postShouldAdd kws (key p) False then
           (case normalize (JStr (value p)) of
              None \<Rightarrow> None
            | Some (Inl e) \<Rightarrow> Some (Inl e)
            | Some (Inr v) \<Rightarrow> postQuery_loop kws ftext (endIndex p - 1 + 1) (arr @ [JObj [(key p, v)]]))
         else postQuery_loop kws ftext (endIndex p - 1 + 1) arr)
      else Some (Inr arr))"

definition computePreQuery :: "controller \<Rightarrow> jsvalue \<Rightarrow> jsvalue \<Rightarrow> (error + AggregateBuilder) option" where
  "computePreQuery c search ftext =
     (case (if (isString search \<or> isObject search) \<and> isExist search \<and> length (searchFields c) > 0
              then (case searchFields_forEach (searchFields c)
                           (if autoRegExpSearch c then transformRegExpSearch search else search) [] of
                      None \<Rightarrow> None
                    | Some (Inl e) \<Rightarrow> Some (Inl e)
                    | Some (Inr sub) \<Rightarrow> Some (Inr [JObj [(''$or'', JArr sub)]]))
            else Some (Inr [])) of
        None \<Rightarrow> None
      | Some (Inl e) \<Rightarrow> Some (Inl e)
      | Some (Inr arr) \<Rightarrow>
          (case (case ftext of
                   JStr f \<Rightarrow> preQuery_loop (postMatchKeywords c)
                               (if \<not> endsWith f '','' then f @ '','' else f) 0 arr
                 | _ \<Rightarrow> Some (Inr arr)) of
             None \<Rightarrow> None
           | Some (Inl e) \<Rightarrow> Some (Inl e)
           | Some (Inr arr') \<Rightarrow>
               Some (Inr (builder_match
                            (if length arr' > 0 then JObj [(''$and'', JArr arr')] else JObj []) []))))"

text \<open>\<open>computePostQuery\<close>; the result \<open>false\<close> is \<open>None\<close> in the right summand.\<close>

definition computePostQuery :: "controller \<Rightarrow> jsvalue \<Rightarrow> (error + AggregateBuilder option) option" where
  "computePostQuery c ftext =
     (case (case ftext of
              JStr f \<Rightarrow> postQuery_loop (postMatchKeywords c)
                          (if \<not> endsWith f '','' then f @ '','' else f) 0 []
            | _ \<Rightarrow> Some (Inr [])) of
        None \<Rightarrow> None
      | Some (Inl e) \<Rightarrow> Some (Inl e)
      | Some (Inr arr) \<Rightarrow>
          if length arr > 0 then Some (Inr (Some (builder_match (JObj [(''$and'', JArr arr)]) [])))
          else Some (Inr None))"

text \<open>The body of the \<open>forEach\<close> in \<open>computeSort\<close>, on the mapping \<open>opt\<close>.\<close>

definition computeSort_step :: "(string \<times> int) list \<Rightarrow> string \<Rightarrow> (string \<times> int) list" where
  "computeSort_step opt tok =
     (let orderKey = (if startsWith tok ''-'' then ''-'' else ''+'');
          k = trim (str_replace tok orderKey []);
          order = (if orderKey = ''-'' then - 1 else 1)
      in if isExist (JStr k) then setProp k order opt else opt)"

definition computeSort :: "string option \<Rightarrow> AggregateBuilder option" where
  "computeSort s =
     (case s of
        Some str \<Rightarrow> Some (builder_sort (foldl computeSort_step [] (str_split CHR '','' str)) [])
      | None \<Rightarrow> None)"

text \<open>\<open>computeOption\<close>, on integral page numbers and sizes.\<close>

definition computeOption :: "int option \<Rightarrow> int option \<Rightarrow> AggregateBuilder option" where
  "computeOption page pageSize =
     (case (page, pageSize) of
        (Some pg, Some sz) \<Rightarrow>
          (let sk = (if pg > 0 then (pg - 1) * sz else 0)
           in Some (builder_skip sk (builder_limit (sz + sk) [])))
      | _ \<Rightarrow> None)"

definition computePipeline ::
    "controller \<Rightarrow> jsvalue \<Rightarrow> jsvalue \<Rightarrow> string option \<Rightarrow> int option \<Rightarrow> int option
       \<Rightarrow> (error + AggregateBuilder) option" where
  "computePipeline c search ftext srt page pageSize =
     (case computePreQuery c search ftext of
        None \<Rightarrow> None
      | Some (Inl e) \<Rightarrow> Some (Inl e)
      | Some (Inr b0) \<Rightarrow>
          (let b1 = builder_concat b0 (buildAggregateBuilder c);
               b2 = (case computeSort srt of Some s \<Rightarrow> builder_concat b1 s | None \<Rightarrow> b1);
               b3 = (case computeOption page pageSize of Some p \<Rightarrow> builder_concat b2 p | None \<Rightarrow> b2)
           in (case computePostQuery c ftext of
                 None \<Rightarrow> None
               | Some (Inl e) \<Rightarrow> Some (Inl e)
               | Some (Inr q) \<Rightarrow> Some (Inr (case q of Some qb \<Rightarrow> builder_concat b3 qb | None \<Rightarrow> b3)))))"

section \<open>Properties of the tokenizer\<close>

lemma str_includes_sublist: "str_includes s t = sublist t s"
  by (induction s) (auto simp: sublist_Cons_right)

lemma str_includes_single: "str_includes s [c] = (c \<in> set s)"
  by (induction s) auto

lemma undefined_not_key: "\<not> str_includes kKeyAllowedCharacters ''undefined''"
  by (simp add: kKeyAllowedCharacters_def)

lemma charAt_in: "0 \<le> i \<Longrightarrow> i < int (length t) \<Longrightarrow> charAt t i = Some [t ! nat i]"
  by (simp add: charAt_def)

lemma charAt_neg: "i < 0 \<Longrightarrow> charAt t i = None"
  by (simp add: charAt_def)

lemma loop_end: "\<not> i < int (length t) \<Longrightarrow> findNextPair_loop t i fk n res = res"
  by (subst findNextPair_loop.simps) simp

lemma loop_key_skip_neg:
  "i < 0 \<Longrightarrow> findNextPair_loop t i False n res = findNextPair_loop t (i + 1) False n res"
  using undefined_not_key
  by (subst findNextPair_loop.simps) (auto simp: charAt_neg toStr_def loop_end[of "i + 1"] loop_end[of i])

lemma loop_key_step:
  assumes "0 \<le> i" "i < int (length t)"
  shows "findNextPair_loop t i False n res =
     (if t ! nat i \<in> set kKeyAllowedCharacters
        then findNextPair_loop t (i + 1) False n (res\<lparr>key := key res @ [t ! nat i]\<rparr>)
      else if t ! nat i = CHR '':'' then findNextPair_loop t (i + 1) True n res
      else findNextPair_loop t (i + 1) False n res)"
  using assms
  by (subst findNextPair_loop.simps)
     (simp add: charAt_in toStr_def str_includes_single kDelimiter_def)

text \<open>The bracket depth after a character of the value.\<close>

definition depth_after :: "int \<Rightarrow> char \<Rightarrow> int" where
  "depth_after n c =
     (let n1 = (if c \<in> set kStart then n + 1 else n)
      in if c \<in> set kEnd then n1 - 1 else n1)"

lemma loop_value_step:
  assumes "0 \<le> i" "i < int (length t)"
  shows "findNextPair_loop t i True n res =
     (if depth_after n (t ! nat i) = 0 \<and> t ! nat i = CHR '','' then res\<lparr>endIndex := i + 1\<rparr>
      else findNextPair_loop t (i + 1) True (depth_after n (t ! nat i))
             (res\<lparr>value := value res @ [t ! nat i]\<rparr>))"
proof -
  have ch: "charAt t i = Some [t ! nat i]" using assms by (rule charAt_in)
  have d: "(if str_includes kEnd [t ! nat i]
            then (if str_includes kStart [t ! nat i] then n + 1 else n) - 1
            else (if str_includes kStart [t ! nat i] then n + 1 else n)) = depth_after n (t ! nat i)"
    by (simp add: depth_after_def str_includes_single Let_def)
  show ?thesis
    using assms(2)
    by (subst findNextPair_loop.simps)
       (simp only: ch d Let_def toStr_def option.case kDelimiter_def if_True if_False not_not
          simp_thms nth_Cons_Suc nth_Cons_0 One_nat_def option.inject list.inject)
qed

lemma drop_step: "0 \<le> i \<Longrightarrow> i < int (length t) \<Longrightarrow> drop (nat i) t = t ! nat i # drop (nat (i + 1)) t"
  by (simp add: Cons_nth_drop_Suc nat_add_distrib)

lemma loop_value_phase:
  fixes t :: string and n i :: int and res :: pair
  assumes "0 \<le> i" "endIndex res = 0"
  defines "r \<equiv> findNextPair_loop t i True n res"
  shows "startIndex r = startIndex res \<and> key r = key res \<and>
      (endIndex r = 0 \<longrightarrow> value r = value res @ drop (nat i) t) \<and>
      (endIndex r \<noteq> 0 \<longrightarrow> i < endIndex r \<and> endIndex r \<le> int (length t) \<and>
          t ! nat (endIndex r - 1) = CHR '','')"
  using assms(1,2) unfolding r_def
proof (induction k \<equiv> "nat (int (length t) - i)" arbitrary: i n res)
  case 0
  then have "\<not> i < int (length t)" by simp
  with 0 show ?case by (simp add: loop_end)
next
  case (Suc k)
  then have lt: "i < int (length t)" by simp
  have i0: "0 \<le> i" by fact
  show ?case
  proof (cases "depth_after n (t ! nat i) = 0 \<and> t ! nat i = CHR '',''")
    case True
    then have "findNextPair_loop t i True n res = res\<lparr>endIndex := i + 1\<rparr>"
      by (subst loop_value_step[OF i0 lt]) (rule if_P)
    then show ?thesis using lt i0 Suc.prems True by simp
  next
    case False
    have k: "k = nat (int (length t) - (i + 1))" using Suc.hyps(2) by simp
    have i1: "0 \<le> i + 1" using i0 by simp
    have e: "endIndex (res\<lparr>value := value res @ [t ! nat i]\<rparr>) = 0" using Suc.prems by simp
    note IH = Suc.hyps(1)[OF k i1 e, of "depth_after n (t ! nat i)"]
    have "findNextPair_loop t i True n res =
          findNextPair_loop t (i + 1) True (depth_after n (t ! nat i))
             (res\<lparr>value := value res @ [t ! nat i]\<rparr>)"
      using False by (subst loop_value_step[OF i0 lt]) (rule if_not_P)
    then show ?thesis
      using IH by (auto simp: drop_step[OF i0 lt])
  qed
qed

lemma loop_key_phase:
  fixes t :: string and n i :: int and res :: pair
  assumes "0 \<le> i" "endIndex res = 0"
  defines "r \<equiv> findNextPair_loop t i False n res"
      and "rest \<equiv> drop (nat i) t"
  shows "startIndex r = startIndex res \<and>
      (endIndex r = 0 \<longrightarrow>
         key r = key res @ filter (\<lambda>c. c \<in> set kKeyAllowedCharacters) (takeWhile (\<lambda>c. c \<noteq> CHR '':'') rest) \<and>
         value r = value res @ drop 1 (dropWhile (\<lambda>c. c \<noteq> CHR '':'') rest)) \<and>
      (endIndex r \<noteq> 0 \<longrightarrow> i < endIndex r \<and> endIndex r \<le> int (length t) \<and>
          t ! nat (endIndex r - 1) = CHR '','')"
  using assms(1,2) unfolding r_def rest_def
proof (induction k \<equiv> "nat (int (length t) - i)" arbitrary: i res)
  case 0
  then have "\<not> i < int (length t)" by simp
  with 0 show ?case by (simp add: loop_end)
next
  case (Suc k)
  then have lt: "i < int (length t)" by simp
  have i0: "0 \<le> i" by fact
  have k: "k = nat (int (length t) - (i + 1))" using Suc.hyps(2) by simp
  have i1: "0 \<le> i + 1" using i0 by simp
  have colon: "CHR '':'' \<notin> set kKeyAllowedCharacters" by (simp add: kKeyAllowedCharacters_def)
  consider (allowed) "t ! nat i \<in> set kKeyAllowedCharacters"
    | (colon) "t ! nat i \<notin> set kKeyAllowedCharacters" "t ! nat i = CHR '':''"
    | (other) "t ! nat i \<notin> set kKeyAllowedCharacters" "t ! nat i \<noteq> CHR '':''"
    by blast
  then show ?case
  proof cases
    case allowed
    then have ne: "t ! nat i \<noteq> CHR '':''" using colon by auto
    have e: "endIndex (res\<lparr>key := key res @ [t ! nat i]\<rparr>) = 0" using Suc.prems by simp
    have "findNextPair_loop t i False n res =
          findNextPair_loop t (i + 1) False n (res\<lparr>key := key res @ [t ! nat i]\<rparr>)"
      using allowed by (simp add: loop_key_step[OF i0 lt])
    then show ?thesis
      using Suc.hyps(1)[OF k i1 e] allowed ne by (auto simp: drop_step[OF i0 lt])
  next
    case colon
    have "findNextPair_loop t i False n res = findNextPair_loop t (i + 1) True n res"
      using colon by (simp add: loop_key_step[OF i0 lt])
    then show ?thesis
      using loop_value_phase[OF i1 Suc.prems(2), of t n] colon by (auto simp: drop_step[OF i0 lt])
  next
    case other
    have "findNextPair_loop t i False n res = findNextPair_loop t (i + 1) False n res"
      using other by (simp add: loop_key_step[OF i0 lt])
    then show ?thesis
      using Suc.hyps(1)[OF k i1 Suc.prems(2)] other by (auto simp: drop_step[OF i0 lt])
  qed
qed

lemma loop_negative:
  "i < 0 \<Longrightarrow> findNextPair_loop t i False n res = findNextPair_loop t 0 False n res"
proof (induction k \<equiv> "nat (- i)" arbitrary: i)
  case 0
  then show ?case by simp
next
  case (Suc k)
  have s: "findNextPair_loop t i False n res = findNextPair_loop t (i + 1) False n res"
    using Suc.prems by (rule loop_key_skip_neg)
  show ?case
  proof (cases "i + 1 < 0")
    case True
    have "k = nat (- (i + 1))" using Suc.hyps(2) by simp
    from Suc.hyps(1)[OF this True] s show ?thesis by simp
  next
    case False
    with Suc.prems have "i + 1 = 0" by simp
    with s show ?thesis by simp
  qed
qed

lemma nth_in_set_drop: "n \<le> j \<Longrightarrow> j < length xs \<Longrightarrow> xs ! j \<in> set (drop n xs)"
proof -
  assume a: "n \<le> j" "j < length xs"
  then have "drop n xs ! (j - n) = xs ! j" by simp
  moreover have "j - n < length (drop n xs)" using a by simp
  ultimately show ?thesis by (metis nth_mem)
qed

lemma findNextPair_facts:
  fixes s :: string and start :: int
  defines "r \<equiv> findNextPair s start"
      and "rest \<equiv> drop (nat start) s"
  shows "startIndex r = start"
    and "endIndex r = 0 \<Longrightarrow>
        key r = filter (\<lambda>c. c \<in> set kKeyAllowedCharacters) (takeWhile (\<lambda>c. c \<noteq> CHR '':'') rest) \<and>
        value r = drop 1 (dropWhile (\<lambda>c. c \<noteq> CHR '':'') rest)"
    and "endIndex r \<noteq> 0 \<Longrightarrow>
        max 0 start < endIndex r \<and> endIndex r \<le> int (length s) \<and> s ! nat (endIndex r - 1) = CHR '',''"
proof -
  let ?r0 = "\<lparr>startIndex = start, endIndex = 0, key = [], value = []\<rparr>"
  let ?i = "max 0 start"
  have eq: "r = findNextPair_loop s ?i False 0 ?r0"
    unfolding r_def findNextPair_def using loop_negative[of start s 0 ?r0]
    by (cases "start < 0") (simp_all add: max_def)
  have d: "drop (nat ?i) s = rest" unfolding rest_def by (simp add: max_def)
  have i0: "0 \<le> ?i" by simp
  have e0: "endIndex ?r0 = 0" by simp
  note ph = loop_key_phase[OF i0 e0, of s 0, folded eq, unfolded d]
  show "startIndex r = start" using ph by simp
  show "endIndex r = 0 \<Longrightarrow>
        key r = filter (\<lambda>c. c \<in> set kKeyAllowedCharacters) (takeWhile (\<lambda>c. c \<noteq> CHR '':'') rest) \<and>
        value r = drop 1 (dropWhile (\<lambda>c. c \<noteq> CHR '':'') rest)"
    using ph by simp
  show "endIndex r \<noteq> 0 \<Longrightarrow>
        max 0 start < endIndex r \<and> endIndex r \<le> int (length s) \<and> s ! nat (endIndex r - 1) = CHR '',''"
    using ph by simp
qed

text \<open>The bracket depth after the characters \<open>p\<close> of a value: the opening brackets less the
  closing ones.\<close>

definition depth :: "string \<Rightarrow> int" where
  "depth p = int (length (filter (\<lambda>c. c \<in> set kStart) p)) - int (length (filter (\<lambda>c. c \<in> set kEnd) p))"

text \<open>A comma of the value text \<open>v\<close> that terminates the pair: the one at position \<open>j\<close>, with
  bracket depth 0 before it.\<close>

definition terminator :: "string \<Rightarrow> nat \<Rightarrow> bool" where
  "terminator v j = (j < length v \<and> v ! j = CHR '','' \<and> depth (take j v) = 0)"

text \<open>The position of the first comma that the value phase of the loop stops at, from the
  depth \<open>n\<close>.\<close>

fun scanValue :: "int \<Rightarrow> string \<Rightarrow> nat option" where
  "scanValue n [] = None"
| "scanValue n (c # cs) =
     (if depth_after n c = 0 \<and> c = CHR '','' then Some 0
      else map_option Suc (scanValue (depth_after n c) cs))"

lemma depth_Nil: "depth [] = 0"
  by (simp add: depth_def)

lemma depth_after_depth: "depth_after n c + depth p = n + depth (c # p)"
  by (simp add: depth_after_def depth_def Let_def)

lemma depth_after_comma: "depth_after n CHR '','' = n"
  by (simp add: depth_after_def kStart_def kEnd_def)

lemma scanValue_None:
  "scanValue n w = None \<Longrightarrow> j < length w \<Longrightarrow> w ! j = CHR '','' \<Longrightarrow> n + depth (take j w) \<noteq> 0"
proof (induction w arbitrary: n j)
  case Nil
  then show ?case by simp
next
  case (Cons c cs)
  from Cons.prems(1) have a: "\<not> (depth_after n c = 0 \<and> c = CHR '','')"
    and b: "scanValue (depth_after n c) cs = None"
    by (auto split: if_splits)
  show ?case
  proof (cases j)
    case 0
    with Cons.prems(3) a show ?thesis by (simp add: depth_Nil depth_after_comma)
  next
    case (Suc j')
    with Cons.prems have "j' < length cs" "cs ! j' = CHR '',''" by simp_all
    from Cons.IH[OF b this] show ?thesis
      unfolding Suc by (simp add: depth_after_depth)
  qed
qed

lemma scanValue_Some:
  "scanValue n w = Some j \<Longrightarrow>
   j < length w \<and> w ! j = CHR '','' \<and> n + depth (take j w) = 0 \<and>
   (\<forall>i<j. w ! i = CHR '','' \<longrightarrow> n + depth (take i w) \<noteq> 0)"
proof (induction w arbitrary: n j)
  case Nil
  then show ?case by simp
next
  case (Cons c cs)
  show ?case
  proof (cases "depth_after n c = 0 \<and> c = CHR '',''")
    case True
    then have "scanValue n (c # cs) = Some 0" unfolding scanValue.simps by (rule if_P)
    with Cons.prems have "j = 0" by simp
    moreover from True have "n = 0" "c = CHR '',''" using depth_after_comma[of n] by auto
    ultimately show ?thesis by (simp add: depth_Nil)
  next
    case False
    with Cons.prems obtain j' where j: "j = Suc j'" and s: "scanValue (depth_after n c) cs = Some j'"
      by auto
    note IH = Cons.IH[OF s]
    have "\<forall>i<j. (c # cs) ! i = CHR '','' \<longrightarrow> n + depth (take i (c # cs)) \<noteq> 0"
    proof (intro allI impI)
      fix i assume i: "i < j" and ci: "(c # cs) ! i = CHR '',''"
      show "n + depth (take i (c # cs)) \<noteq> 0"
      proof (cases i)
        case 0
        with ci False show ?thesis by (simp add: depth_Nil depth_after_comma)
      next
        case (Suc i')
        with i j ci IH have "depth_after n c + depth (take i' cs) \<noteq> 0" by simp
        then show ?thesis unfolding Suc by (simp add: depth_after_depth)
      qed
    qed
    with IH show ?thesis unfolding j by (simp add: depth_after_depth)
  qed
qed

lemma loop_value_scan:
  assumes "0 \<le> i" "i \<le> int (length t)"
  shows "findNextPair_loop t i True n res =
     (case scanValue n (drop (nat i) t) of
        None \<Rightarrow> res\<lparr>value := value res @ drop (nat i) t\<rparr>
      | Some j \<Rightarrow> res\<lparr>value := value res @ take j (drop (nat i) t), endIndex := i + int j + 1\<rparr>)"
  using assms
proof (induction k \<equiv> "nat (int (length t) - i)" arbitrary: i n res)
  case 0
  then have "\<not> i < int (length t)" "drop (nat i) t = []" by simp_all
  then show ?case by (simp add: loop_end)
next
  case (Suc k)
  then have lt: "i < int (length t)" by simp
  have i0: "0 \<le> i" by fact
  have k: "k = nat (int (length t) - (i + 1))" using Suc.hyps(2) by simp
  have i1: "0 \<le> i + 1" "i + 1 \<le> int (length t)" using i0 lt by simp_all
  note d = drop_step[OF i0 lt]
  show ?case
  proof (cases "depth_after n (t ! nat i) = 0 \<and> t ! nat i = CHR '',''")
    case True
    then have "findNextPair_loop t i True n res = res\<lparr>endIndex := i + 1\<rparr>"
      by (subst loop_value_step[OF i0 lt]) (rule if_P)
    moreover from True have "scanValue n (t ! nat i # drop (nat (i + 1)) t) = Some 0"
      unfolding scanValue.simps by (rule if_P)
    ultimately show ?thesis by (simp add: d del: scanValue.simps)
  next
    case False
    have "findNextPair_loop t i True n res =
          findNextPair_loop t (i + 1) True (depth_after n (t ! nat i))
             (res\<lparr>value := value res @ [t ! nat i]\<rparr>)"
      using False by (subst loop_value_step[OF i0 lt]) (rule if_not_P)
    then show ?thesis
      using False Suc.hyps(1)[OF k i1, of "depth_after n (t ! nat i)" "res\<lparr>value := value res @ [t ! nat i]\<rparr>"]
      by (auto simp: d split: option.split)
  qed
qed

lemma loop_key_scan:
  assumes "0 \<le> i" "i \<le> int (length t)"
  defines "rest \<equiv> drop (nat i) t"
  defines "k \<equiv> takeWhile (\<lambda>c. c \<noteq> CHR '':'') rest"
  shows "findNextPair_loop t i False n res =
     (if CHR '':'' \<in> set rest
        then findNextPair_loop t (i + int (length k) + 1) True n
               (res\<lparr>key := key res @ filter (\<lambda>c. c \<in> set kKeyAllowedCharacters) k\<rparr>)
      else res\<lparr>key := key res @ filter (\<lambda>c. c \<in> set kKeyAllowedCharacters) k\<rparr>)"
  using assms(1,2) unfolding k_def rest_def
proof (induction m \<equiv> "nat (int (length t) - i)" arbitrary: i res)
  case 0
  then have "\<not> i < int (length t)" "drop (nat i) t = []" by simp_all
  then show ?case by (simp add: loop_end)
next
  case (Suc m)
  then have lt: "i < int (length t)" by simp
  have i0: "0 \<le> i" by fact
  have m: "m = nat (int (length t) - (i + 1))" using Suc.hyps(2) by simp
  have i1: "0 \<le> i + 1" "i + 1 \<le> int (length t)" using i0 lt by simp_all
  note d = drop_step[OF i0 lt]
  have colon: "CHR '':'' \<notin> set kKeyAllowedCharacters" by (simp add: kKeyAllowedCharacters_def)
  consider (allowed) "t ! nat i \<in> set kKeyAllowedCharacters"
    | (colon) "t ! nat i \<notin> set kKeyAllowedCharacters" "t ! nat i = CHR '':''"
    | (other) "t ! nat i \<notin> set kKeyAllowedCharacters" "t ! nat i \<noteq> CHR '':''"
    by blast
  then show ?case
  proof cases
    case allowed
    then have ne: "t ! nat i \<noteq> CHR '':''" using colon by auto
    have "findNextPair_loop t i False n res =
          findNextPair_loop t (i + 1) False n (res\<lparr>key := key res @ [t ! nat i]\<rparr>)"
      using allowed by (simp add: loop_key_step[OF i0 lt])
    then show ?thesis
      using Suc.hyps(1)[OF m i1, of "res\<lparr>key := key res @ [t ! nat i]\<rparr>"] allowed ne
      by (simp add: d add.assoc add.commute)
  next
    case colon
    have "findNextPair_loop t i False n res = findNextPair_loop t (i + 1) True n res"
      using colon by (simp add: loop_key_step[OF i0 lt])
    then show ?thesis using colon by (simp add: d)
  next
    case other
    have "findNextPair_loop t i False n res = findNextPair_loop t (i + 1) False n res"
      using other by (simp add: loop_key_step[OF i0 lt])
    then show ?thesis
      using Suc.hyps(1)[OF m i1, of res] other
      by (simp add: d add.assoc add.commute)
  qed
qed

lemma findNextPair_scan:
  fixes s :: string and start :: int
  defines "rest \<equiv> drop (nat start) s"
  defines "k \<equiv> takeWhile (\<lambda>c. c \<noteq> CHR '':'') rest"
      and "v \<equiv> drop 1 (dropWhile (\<lambda>c. c \<noteq> CHR '':'') rest)"
  shows "findNextPair s start =
     (case scanValue 0 v of
        None \<Rightarrow> \<lparr>startIndex = start, endIndex = 0,
                  key = filter (\<lambda>c. c \<in> set kKeyAllowedCharacters) k, value = v\<rparr>
      | Some j \<Rightarrow> \<lparr>startIndex = start, endIndex = int (length s - length v + j + 1),
                    key = filter (\<lambda>c. c \<in> set kKeyAllowedCharacters) k, value = take j v\<rparr>)"
proof -
  let ?r0 = "\<lparr>startIndex = start, endIndex = 0, key = [], value = []\<rparr>"
  let ?i = "max 0 start"
  let ?K = "filter (\<lambda>c. c \<in> set kKeyAllowedCharacters) k"
  have eq: "findNextPair s start = findNextPair_loop s ?i False 0 ?r0"
    unfolding findNextPair_def using loop_negative[of start s 0 ?r0]
    by (cases "start < 0") (simp_all add: max_def)
  have d: "drop (nat ?i) s = rest" unfolding rest_def by (simp add: max_def)
  have i0: "0 \<le> ?i" by simp
  show ?thesis
  proof (cases "?i \<le> int (length s)")
    case False
    then have "rest = []" unfolding rest_def by (simp add: max_def split: if_splits)
    then have "k = []" "v = []" by (simp_all add: k_def v_def)
    moreover have "findNextPair s start = ?r0"
      using False unfolding eq by (intro loop_end) simp
    ultimately show ?thesis by simp
  next
    case le: True
    note ks = loop_key_scan[OF i0 le, of 0 ?r0, unfolded d, folded k_def]
    show ?thesis
    proof (cases "CHR '':'' \<in> set rest")
      case False
      then have "dropWhile (\<lambda>c. c \<noteq> CHR '':'') rest = []" by (auto simp: dropWhile_eq_Nil_conv)
      then have "v = []" unfolding v_def by (simp only: drop_Nil)
      moreover have "findNextPair s start = ?r0\<lparr>key := ?K\<rparr>"
        using False unfolding eq ks by simp
      ultimately show ?thesis by simp
    next
      case True
      then have kl: "length k < length rest"
        unfolding k_def by (induction rest) auto
      have lr: "length rest = length s - nat ?i" using d[symmetric] by simp
      let ?j = "?i + int (length k) + 1"
      have j0: "0 \<le> ?j" by simp
      have jl: "?j \<le> int (length s)" using kl lr le by linarith
      have "dropWhile (\<lambda>c. c \<noteq> CHR '':'') rest = drop (length k) rest"
        unfolding k_def by (simp add: dropWhile_eq_drop)
      then have "v = drop (Suc (length k)) rest" by (simp add: v_def)
      also have "\<dots> = drop (Suc (length k) + nat ?i) s" unfolding d[symmetric] by simp
      also have "Suc (length k) + nat ?i = nat ?j" by simp
      finally have v: "drop (nat ?j) s = v" by simp
      have lv: "length s - length v = nat ?j" using v[symmetric] jl by simp
      have "findNextPair s start = findNextPair_loop s ?j True 0 (?r0\<lparr>key := ?K\<rparr>)"
        using True unfolding eq ks by simp
      also note loop_value_scan[OF j0 jl, of 0 "?r0\<lparr>key := ?K\<rparr>", unfolded v]
      finally show ?thesis
        by (simp add: lv nat_add_distrib split: option.split)
    qed
  qed
qed

text \<open>
  Claim C7. \<open>findNextPair\<close> is a total function: it has a result, and raises nothing, on
  every text and every start index, and the result keeps the start index. The key is made
  of the key characters before the first colon at or after the start. Let \<open>v\<close> be the text
  after that colon. A comma of \<open>v\<close> terminates the pair when the bracket depth before it is
  0. When no comma of \<open>v\<close> does, so that the scan reaches the end of the text, and only
  then, \<open>endIndex\<close> is 0, and the value is all of \<open>v\<close>, unbalanced brackets and inner
  commas included. Otherwise the first terminating comma ends the pair: \<open>endIndex\<close> is one
  past it and the value is the text before it.
\<close>

theorem findNextPair_incomplete:
  fixes s :: string and start :: int
  defines "r \<equiv> findNextPair s start"
      and "rest \<equiv> drop (nat start) s"
  defines "v \<equiv> drop 1 (dropWhile (\<lambda>c. c \<noteq> CHR '':'') rest)"
  shows "startIndex r = start \<and>
     key r = filter (\<lambda>c. c \<in> set kKeyAllowedCharacters) (takeWhile (\<lambda>c. c \<noteq> CHR '':'') rest) \<and>
     (endIndex r = 0) = (\<forall>j. \<not> terminator v j) \<and>
     ((\<forall>j. \<not> terminator v j) \<longrightarrow> value r = v) \<and>
     (\<forall>j. terminator v j \<and> (\<forall>i<j. \<not> terminator v i) \<longrightarrow>
          endIndex r = int (length s - length v + j + 1) \<and> value r = take j v)"
proof (cases "scanValue 0 v")
  case None
  have n: "\<not> terminator v j" for j
    using scanValue_None[OF None, of j] by (auto simp: terminator_def)
  show ?thesis
    using findNextPair_scan[of s start, folded rest_def, folded v_def r_def] None n by simp
next
  case (Some j)
  from scanValue_Some[OF Some]
  have t: "terminator v j" and l: "\<And>i. i < j \<Longrightarrow> \<not> terminator v i"
    by (auto simp: terminator_def)
  have u: "j' = j" if "terminator v j'" "\<forall>i<j'. \<not> terminator v i" for j'
    using that t l by (meson linorder_neqE_nat)
  have r: "r = \<lparr>startIndex = start, endIndex = int (length s - length v + j + 1),
             key = filter (\<lambda>c. c \<in> set kKeyAllowedCharacters) (takeWhile (\<lambda>c. c \<noteq> CHR '':'') rest),
             value = take j v\<rparr>"
    using findNextPair_scan[of s start, folded rest_def, folded v_def r_def] Some by simp
  show ?thesis
    unfolding r using t u by auto
qed

lemmas findNextPair_eval =
  findNextPair_def findNextPair_loop.simps charAt_def toStr_def kStart_def kEnd_def
  kDelimiter_def kKeyAllowedCharacters_def Let_def

lemma scan_examples:
  "scanValue 0 ''1],b:2,'' = None" "scanValue 0 ''{v,'' = None" "scanValue 0 ''{c:2,d:3},e:5,'' = Some 9"
  by (simp_all add: depth_after_def kStart_def kEnd_def)

lemma terminator_ex1: "\<not> terminator ''1],b:2,'' j"
  using scanValue_None[OF scan_examples(1), of j] unfolding terminator_def by auto

lemma terminator_ex2: "\<not> terminator ''{v,'' j"
  using scanValue_None[OF scan_examples(2), of j] unfolding terminator_def by auto

lemma terminator_ex3:
  "terminator ''{c:2,d:3},e:5,'' 9" "\<forall>i<9. \<not> terminator ''{c:2,d:3},e:5,'' i"
  using scanValue_Some[OF scan_examples(3)] unfolding terminator_def by auto

theorem findNextPair_incomplete_witness:
  "(\<forall>j. \<not> terminator ''1],b:2,'' j) \<and>
   endIndex (findNextPair ''a:1],b:2,'' 0) = 0 \<and> key (findNextPair ''a:1],b:2,'' 0) = ''a'' \<and>
   value (findNextPair ''a:1],b:2,'' 0) = ''1],b:2,'' \<and>
   (\<forall>j. \<not> terminator ''{v,'' j) \<and>
   endIndex (findNextPair ''k:{v,'' 0) = 0 \<and> key (findNextPair ''k:{v,'' 0) = ''k'' \<and>
   value (findNextPair ''k:{v,'' 0) = ''{v,'' \<and>
   terminator ''{c:2,d:3},e:5,'' 9 \<and>
   endIndex (findNextPair ''a:1,b:{c:2,d:3},e:5,'' 4) = 16 \<and>
   key (findNextPair ''a:1,b:{c:2,d:3},e:5,'' 4) = ''b'' \<and>
   value (findNextPair ''a:1,b:{c:2,d:3},e:5,'' 4) = ''{c:2,d:3}''"
proof -
  have v: "drop 1 (dropWhile (\<lambda>c. c \<noteq> CHR '':'') (drop (nat 0) ''a:1],b:2,'')) = ''1],b:2,''"
      "drop 1 (dropWhile (\<lambda>c. c \<noteq> CHR '':'') (drop (nat 0) ''k:{v,'')) = ''{v,''"
      "drop 1 (dropWhile (\<lambda>c. c \<noteq> CHR '':'') (drop (nat 4) ''a:1,b:{c:2,d:3},e:5,'')) = ''{c:2,d:3},e:5,''"
    by simp_all
  have k: "filter (\<lambda>c. c \<in> set kKeyAllowedCharacters)
             (takeWhile (\<lambda>c. c \<noteq> CHR '':'') (drop (nat 0) ''a:1],b:2,'')) = ''a''"
      "filter (\<lambda>c. c \<in> set kKeyAllowedCharacters)
             (takeWhile (\<lambda>c. c \<noteq> CHR '':'') (drop (nat 0) ''k:{v,'')) = ''k''"
      "filter (\<lambda>c. c \<in> set kKeyAllowedCharacters)
             (takeWhile (\<lambda>c. c \<noteq> CHR '':'') (drop (nat 4) ''a:1,b:{c:2,d:3},e:5,'')) = ''b''"
    by (simp_all add: kKeyAllowedCharacters_def)
  have n: "int (length ''a:1,b:{c:2,d:3},e:5,'' - length ''{c:2,d:3},e:5,'' + 9 + 1) = 16"
      "take 9 ''{c:2,d:3},e:5,'' = ''{c:2,d:3}''"
    by simp_all
  from findNextPair_incomplete[of "''a:1],b:2,''" 0, unfolded v k] terminator_ex1
  have a: "endIndex (findNextPair ''a:1],b:2,'' 0) = 0 \<and> key (findNextPair ''a:1],b:2,'' 0) = ''a'' \<and>
           value (findNextPair ''a:1],b:2,'' 0) = ''1],b:2,''"
    by blast
  from findNextPair_incomplete[of "''k:{v,''" 0, unfolded v k] terminator_ex2
  have b: "endIndex (findNextPair ''k:{v,'' 0) = 0 \<and> key (findNextPair ''k:{v,'' 0) = ''k'' \<and>
           value (findNextPair ''k:{v,'' 0) = ''{v,''"
    by blast
  from findNextPair_incomplete[of "''a:1,b:{c:2,d:3},e:5,''" 4, unfolded v k] terminator_ex3
  have "endIndex (findNextPair ''a:1,b:{c:2,d:3},e:5,'' 4) =
           int (length ''a:1,b:{c:2,d:3},e:5,'' - length ''{c:2,d:3},e:5,'' + 9 + 1) \<and>
        key (findNextPair ''a:1,b:{c:2,d:3},e:5,'' 4) = ''b'' \<and>
        value (findNextPair ''a:1,b:{c:2,d:3},e:5,'' 4) = take 9 ''{c:2,d:3},e:5,''"
    by blast
  then have c: "endIndex (findNextPair ''a:1,b:{c:2,d:3},e:5,'' 4) = 16 \<and>
        key (findNextPair ''a:1,b:{c:2,d:3},e:5,'' 4) = ''b'' \<and>
        value (findNextPair ''a:1,b:{c:2,d:3},e:5,'' 4) = ''{c:2,d:3}''"
    unfolding n .
  from a b c terminator_ex1 terminator_ex2 terminator_ex3 show ?thesis by blast
qed

text \<open>
  Claim C6. On \<open>a:1,b:{c:2,d:3},e:5,\<close> the calls from index 0, then from each \<open>endIndex\<close>,
  give the pairs \<open>a\<close>/\<open>1\<close>, \<open>b\<close>/\<open>{c:2,d:3}\<close> and \<open>e\<close>/\<open>5\<close>, each ending where the next
  starts (4, 16, 20); the fourth call gives the empty key and value, so there are exactly
  three pairs.
\<close>

theorem findNextPair_example:
  "findNextPair ''a:1,b:{c:2,d:3},e:5,'' 0 = \<lparr>startIndex = 0, endIndex = 4, key = ''a'', value = ''1''\<rparr> \<and>
   findNextPair ''a:1,b:{c:2,d:3},e:5,'' 4 = \<lparr>startIndex = 4, endIndex = 16, key = ''b'', value = ''{c:2,d:3}''\<rparr> \<and>
   findNextPair ''a:1,b:{c:2,d:3},e:5,'' 16 = \<lparr>startIndex = 16, endIndex = 20, key = ''e'', value = ''5''\<rparr> \<and>
   findNextPair ''a:1,b:{c:2,d:3},e:5,'' 20 = \<lparr>startIndex = 20, endIndex = 0, key = [], value = []\<rparr>"
  by (simp add: findNextPair_eval)

section \<open>Properties of the sort and page compiler\<close>

lemmas builder_defs =
  builder_match_def builder_sort_def builder_limit_def builder_skip_def builder_concat_def

text \<open>
  Claim C8. \<open>computeOption(2, 10)\<close> gives a skip of 10 and a limit of 20, and
  \<open>computeOption(0, 10)\<close> a skip of 0 and a limit of 10. In general page \<open>1 + n\<close> skips
  \<open>n\<close> pages and limits to the page size plus the skip, and a page at or below zero
  skips nothing. In the builder the limit stage comes first. With the page or the page
  size undefined the result is \<open>false\<close>.
\<close>

theorem computeOption_pages:
  "computeOption (Some 2) (Some 10) = Some [Limit 20, Skip 10] \<and>
   computeOption (Some 0) (Some 10) = Some [Limit 10, Skip 0] \<and>
   computeOption (Some (1 + int n)) (Some sz) = Some [Limit (sz + int n * sz), Skip (int n * sz)] \<and>
   computeOption (Some (- int n)) (Some sz) = Some [Limit sz, Skip 0] \<and>
   computeOption None pageSize = None \<and>
   computeOption page None = None"
  by (simp add: computeOption_def builder_defs Let_def split: option.split)

lemmas string_defs = startsWith_def endsWith_def trim_def isWhiteSpace_def

text \<open>
  Claim C9. \<open>computeSort("name,-age")\<close> gives the ordering \<open>name: 1, age: -1\<close> in that
  key order, and \<open>computeSort(undefined)\<close> gives \<open>false\<close>. Blank keys are skipped, and a
  key seen again keeps its first place.
\<close>

theorem computeSort_example:
  "computeSort (Some ''name,-age'') = Some [Sort [(''name'', 1), (''age'', - 1)]] \<and>
   computeSort (Some '' ,name,,-age'') = Some [Sort [(''name'', 1), (''age'', - 1)]] \<and>
   computeSort (Some ''name,-age,-name'') = Some [Sort [(''name'', - 1), (''age'', - 1)]] \<and>
   computeSort None = None"
  by (simp add: computeSort_def computeSort_step_def builder_defs string_defs isExist_def
        setProp_def isArrayIndex_def isDigit_def Let_def)

section \<open>Properties of the normalizer\<close>

lemma normalize_Single:
  "normalize v =
     (case textualForm v of
        None \<Rightarrow> Some (Inl TypeError)
      | Some tmp \<Rightarrow>
          if str_includes tmp ''$function'' \<or> str_includes tmp ''$accumulator''
            then Some (Inl InvalidOperator)
          else if isString v \<and> startsWith (toString v) ''{'' \<and> endsWith (toString v) ''}'' then
            (case JSON_parse (toString v) of
               None \<Rightarrow> Some (Inl SyntaxError)
             | Some parsed \<Rightarrow> normalize parsed)
          else if toLowerCase tmp = ''true'' then Some (Inr (JBool True))
          else if toLowerCase tmp = ''false'' then Some (Inr (JBool False))
          else if StringToNumber tmp \<noteq> NaN then Some (Inr (JNum (StringToNumber tmp)))
          else if isISO8601Date tmp then Some (Inr (JDate tmp))
          else if isArray v then normalizeWork (Elements (case v of JArr xs \<Rightarrow> xs | _ \<Rightarrow> []))
          else if \<not> isNumber v \<and> \<not> isString v \<and> \<not> isArray v \<and> isJSON v then
            (case JSON_parse tmp of
               None \<Rightarrow> Some (Inl SyntaxError)
             | Some obj \<Rightarrow>
                 (case obj of
                    JObj ps \<Rightarrow> normalizeWork (Entries ps)
                  | JArr xs \<Rightarrow> normalizeWork (Elements xs)
                  | JNull \<Rightarrow> Some (Inl TypeError)
                  | JUndefined \<Rightarrow> Some (Inl TypeError)
                  | JStr s \<Rightarrow> if s = [] then Some (Inr obj) else Some (Inl TypeError)
                  | _ \<Rightarrow> Some (Inr obj)))
          else Some (Inr v))"
  unfolding normalize_def by (subst normalizeWork.simps) simp

lemma normalizeWork_Elements_Nil: "normalizeWork (Elements []) = Some (Inr (JArr []))"
  by (subst normalizeWork.simps) simp

lemma normalizeWork_Elements_Cons:
  "normalizeWork (Elements (x # rest)) =
     Option.bind (normalize x) (\<lambda>r.
       case r of
         Inl e \<Rightarrow> Some (Inl e)
       | Inr y \<Rightarrow>
           Option.bind (normalizeWork (Elements rest)) (\<lambda>rs.
             case rs of
               Inl e \<Rightarrow> Some (Inl e)
             | Inr ys \<Rightarrow> Some (Inr (JArr (y # (case ys of JArr l \<Rightarrow> l | _ \<Rightarrow> []))))))"
  unfolding normalize_def by (subst normalizeWork.simps) simp

lemma normalizeWork_Entries_Nil: "normalizeWork (Entries []) = Some (Inr (JObj []))"
  by (subst normalizeWork.simps) simp

lemma normalizeWork_Entries_Cons:
  "normalizeWork (Entries ((k, x) # rest)) =
     Option.bind
       (if k = ''dateString'' \<or> k = ''$regex'' then Some (Inr (JStr (toString x)))
        else normalize x) (\<lambda>r.
       case r of
         Inl e \<Rightarrow> Some (Inl e)
       | Inr y \<Rightarrow>
           Option.bind (normalizeWork (Entries rest)) (\<lambda>rs.
             case rs of
               Inl e \<Rightarrow> Some (Inl e)
             | Inr ys \<Rightarrow> Some (Inr (JObj ((k, y) # (case ys of JObj l \<Rightarrow> l | _ \<Rightarrow> []))))))"
  unfolding normalize_def by (subst normalizeWork.simps) simp

text \<open>
  Claim C1. When the textual form of the input, \<open>JSON.stringify\<close> of an object that is
  not null and \<open>String\<close> of anything else, contains \<open>$function\<close> or \<open>$accumulator\<close>,
  \<open>normalize\<close> fails with the invalid-operator error, whatever the other rules would
  have made of the input: the check comes first.
\<close>

theorem normalize_security_guard:
  "textualForm v = Some tmp \<Longrightarrow>
   str_includes tmp ''$function'' \<or> str_includes tmp ''$accumulator'' \<Longrightarrow>
   normalize v = Some (Inl InvalidOperator)"
  by (simp add: normalize_Single)

lemmas value_defs = textualForm_def isObject_def isNull_def isString_def isArray_def isNumber_def

theorem normalize_security_guard_witness:
  "textualForm (JStr ''{$function}'') = Some ''{$function}'' \<and>
   (str_includes ''{$function}'' ''$function'' \<or> str_includes ''{$function}'' ''$accumulator'') \<and>
   normalize (JStr ''{$function}'') = Some (Inl InvalidOperator)"
proof -
  have t: "textualForm (JStr ''{$function}'') = Some ''{$function}''"
    by (simp add: value_defs)
  have i: "str_includes ''{$function}'' ''$function'' \<or> str_includes ''{$function}'' ''$accumulator''"
    by simp
  from normalize_security_guard[OF t i] t i show ?thesis by simp
qed

lemma StringToNumber_empty: "StringToNumber [] = Dec 0 0"
  by (simp add: StringToNumber_def trim_def)

text \<open>
  Claim C2, as the code has it. The empty string passes the numeric rule, \<open>Number("")\<close>
  being 0 and not NaN, and \<open>normalize\<close> returns the number 0.
\<close>

theorem normalize_empty_string: "normalize (JStr []) = Some (Inr (JNum (Dec 0 0)))"
  by (simp add: normalize_Single value_defs StringToNumber_empty string_defs toLowerCase_def)

text \<open>Claim C2 as stated fails: the empty string is not returned unchanged.\<close>

theorem normalize_empty_string_counterexample: "normalize (JStr []) \<noteq> Some (Inr (JStr []))"
  by (simp add: normalize_Single value_defs StringToNumber_empty string_defs toLowerCase_def)

section \<open>The compiled pipeline\<close>

lemmas number_defs =
  StringToNumber_def nonDecimalLiteral_def strDecimalLiteral_def unsignedDecimal_def
  exponentPart_def isDigit_def numeral_of_def digitVal_def

lemmas date_defs = isISO8601Date_def isISOTime_def isISOZone_def

lemma normalize_active: "normalize (JStr ''active'') = Some (Inr (JStr ''active''))"
  by (simp add: normalize_Single value_defs string_defs number_defs date_defs toLowerCase_def
        lowerChar_def Let_def)

lemma normalize_bob: "normalize (JStr ''bob'') = Some (Inr (JStr ''bob''))"
  by (simp add: normalize_Single value_defs string_defs number_defs date_defs toLowerCase_def
        lowerChar_def Let_def)

lemma normalize_i: "normalize (JStr ''i'') = Some (Inr (JStr ''i''))"
  by (simp add: normalize_Single value_defs string_defs number_defs date_defs toLowerCase_def
        lowerChar_def Let_def)

definition regexBob :: jsvalue where
  "regexBob = JObj [(''$regex'', JStr ''bob''), (''$options'', JStr ''i'')]"

definition regexBobText :: string where
  "regexBobText = [CHR ''{'', CHR 0x22, CHR ''$'', CHR ''r'', CHR ''e'', CHR ''g'',
     CHR ''e'', CHR ''x'', CHR 0x22, CHR '':'', CHR 0x22, CHR ''b'',
     CHR ''o'', CHR ''b'', CHR 0x22, CHR '','', CHR 0x22, CHR ''$'',
     CHR ''o'', CHR ''p'', CHR ''t'', CHR ''i'', CHR ''o'', CHR ''n'',
     CHR ''s'', CHR 0x22, CHR '':'', CHR 0x22, CHR ''i'', CHR 0x22, CHR ''}'']"

lemma textualForm_regexBob: "textualForm regexBob = Some regexBobText"
  by (simp add: regexBob_def regexBobText_def value_defs quoteJSON_def escapeChar_def)

lemma JSON_parse_regexBob: "JSON_parse regexBobText = Some regexBob"
  by (simp add: regexBob_def regexBobText_def JSON_parse_def skipWs_def isJSONWhitespace_def
        startsWith_def setProp_def isArrayIndex_def isDigit_def)

lemma normalize_regexBob: "normalize regexBob = Some (Inr regexBob)"
proof -
  have a: "\<not> str_includes regexBobText ''$function''" "\<not> str_includes regexBobText ''$accumulator''"
    by (simp_all add: regexBobText_def)
  have b: "toLowerCase regexBobText \<noteq> ''true''" "toLowerCase regexBobText \<noteq> ''false''"
    by (simp_all add: regexBobText_def toLowerCase_def)
  have c: "StringToNumber regexBobText = NaN"
    by (simp add: regexBobText_def string_defs number_defs Let_def)
  have d: "\<not> isISO8601Date regexBobText"
    by (simp add: regexBobText_def date_defs isDigit_def)
  have e: "\<not> isString regexBob" "\<not> isArray regexBob" "\<not> isNumber regexBob"
    by (simp_all add: regexBob_def value_defs)
  have "JSON_stringify regexBob = Some regexBobText"
    using textualForm_regexBob by (simp add: regexBob_def value_defs)
  then have j: "isJSON regexBob" by (simp add: isJSON_def JSON_parse_regexBob)
  have f: "normalizeWork (Entries [(''$regex'', JStr ''bob''), (''$options'', JStr ''i'')]) = Some (Inr regexBob)"
    by (simp add: normalizeWork_Entries_Cons normalizeWork_Entries_Nil normalize_i regexBob_def)
  show ?thesis
    by (subst normalize_Single)
       (simp add: textualForm_regexBob a b c d e j JSON_parse_regexBob, simp add: regexBob_def f[unfolded regexBob_def])
qed

lemma findNextPair_status:
  "findNextPair ''status:active,'' 0 = \<lparr>startIndex = 0, endIndex = 14, key = ''status'', value = ''active''\<rparr>"
  "findNextPair ''status:active,'' 14 = \<lparr>startIndex = 14, endIndex = 0, key = [], value = []\<rparr>"
  by (simp_all add: findNextPair_eval)

lemma preQuery_loop_status:
  "preQuery_loop [] ''status:active,'' 0 arr = Some (Inr (arr @ [JObj [(''status'', JStr ''active'')]]))"
  by (subst preQuery_loop.simps, simp add: findNextPair_status normalize_active,
      subst preQuery_loop.simps, simp add: findNextPair_status)

lemma postQuery_loop_status:
  "postQuery_loop [] ''status:active,'' 0 arr = Some (Inr arr)"
  by (subst postQuery_loop.simps, simp add: findNextPair_status,
      subst postQuery_loop.simps, simp add: findNextPair_status)

lemma computeSort_createdAt:
  "computeSort (Some ''-createdAt'') = Some [Sort [(''createdAt'', - 1)]]"
  by (simp add: computeSort_def computeSort_step_def builder_defs string_defs isExist_def
        setProp_def isArrayIndex_def isDigit_def Let_def)

lemma search_bob:
  "searchFields_forEach [''name'', ''email''] (JStr ''bob'') [] =
     Some (Inr [JObj [(''name'', JStr ''bob'')], JObj [(''email'', JStr ''bob'')]])"
  "searchFields_forEach [''name'', ''email''] regexBob [] =
     Some (Inr [JObj [(''name'', regexBob)], JObj [(''email'', regexBob)]])"
  by (simp_all add: normalize_bob normalize_regexBob)

lemma transformRegExpSearch_bob: "transformRegExpSearch (JStr ''bob'') = regexBob"
  by (simp add: transformRegExpSearch_def regexBob_def string_defs)

text \<open>The condition on one search field, with and without \<open>autoRegExpSearch\<close>.\<close>

definition bobCondition :: "bool \<Rightarrow> jsvalue" where
  "bobCondition auto = (if auto then JObj [(''$regex'', JStr ''bob''), (''$options'', JStr ''i'')]
                        else JStr ''bob'')"

lemma computePreQuery_example:
  "computePreQuery
     \<lparr>autoRegExpSearch = auto, searchFields = [''name'', ''email''], postMatchKeywords = [],
      buildAggregateBuilder = transform\<rparr>
     (JStr ''bob'') (JStr ''status:active,'') =
   Some (Inr [Match (JObj [(''$and'', JArr
                 [JObj [(''$or'', JArr [JObj [(''name'', bobCondition auto)],
                                       JObj [(''email'', bobCondition auto)]])],
                  JObj [(''status'', JStr ''active'')]])])])"
proof (cases auto)
  case True
  then have "bobCondition auto = regexBob" by (simp add: bobCondition_def regexBob_def)
  then show ?thesis
    using True
    by (simp add: computePreQuery_def value_defs isExist_def search_bob transformRegExpSearch_bob
          preQuery_loop_status endsWith_def builder_defs del: searchFields_forEach.simps)
next
  case False
  then have "bobCondition auto = JStr ''bob''" by (simp add: bobCondition_def)
  then show ?thesis
    using False
    by (simp add: computePreQuery_def value_defs isExist_def search_bob
          preQuery_loop_status endsWith_def builder_defs del: searchFields_forEach.simps)
qed

lemma computePostQuery_example:
  "computePostQuery
     \<lparr>autoRegExpSearch = auto, searchFields = fs, postMatchKeywords = [],
      buildAggregateBuilder = transform\<rparr> (JStr ''status:active,'') = Some (Inr None)"
  by (simp add: computePostQuery_def postQuery_loop_status endsWith_def)

lemma computeOption_example: "computeOption (Some 1) (Some 5) = Some [Limit 5, Skip 0]"
  by (simp add: computeOption_def builder_defs)

text \<open>
  Claim C3, as the code has it. With the search \<open>bob\<close> on the fields \<open>name\<close> and
  \<open>email\<close>, the filter \<open>status:active,\<close>, the sort \<open>-createdAt\<close>, page 1 of size 5 and
  no post-match keyword, the pipeline is: the match stage (the OR of the two search
  conditions, ANDed with \<open>status = active\<close>), the stages of \<open>buildAggregateBuilder\<close>, the
  sort by \<open>createdAt\<close> descending, the limit of 5, then the skip of 0; there is no
  post-match stage. The search condition is the case-insensitive pattern when
  \<open>autoRegExpSearch\<close> is set, the plain string otherwise.
\<close>

theorem computePipeline_example:
  "computePipeline
     \<lparr>autoRegExpSearch = auto, searchFields = [''name'', ''email''], postMatchKeywords = [],
      buildAggregateBuilder = transform\<rparr>
     (JStr ''bob'') (JStr ''status:active,'') (Some ''-createdAt'') (Some 1) (Some 5) =
   Some (Inr ([Match (JObj [(''$and'', JArr
                 [JObj [(''$or'', JArr [JObj [(''name'', bobCondition auto)],
                                       JObj [(''email'', bobCondition auto)]])],
                  JObj [(''status'', JStr ''active'')]])])]
              @ transform
              @ [Sort [(''createdAt'', - 1)], Limit 5, Skip 0]))"
  by (simp add: computePipeline_def computePreQuery_example computePostQuery_example
        computeSort_createdAt computeOption_example builder_concat_def)

text \<open>Claim C3 as stated fails: the pipeline does not end with skip 0 and then limit 5.\<close>

theorem computePipeline_example_counterexample:
  "computePipeline
     \<lparr>autoRegExpSearch = True, searchFields = [''name'', ''email''], postMatchKeywords = [],
      buildAggregateBuilder = [Stage (JObj [(''$project'', JObj [(''name'', JNum (Dec 1 0))])])]\<rparr>
     (JStr ''bob'') (JStr ''status:active,'') (Some ''-createdAt'') (Some 1) (Some 5) \<noteq>
   Some (Inr [Match (JObj [(''$and'', JArr
                 [JObj [(''$or'', JArr [JObj [(''name'', bobCondition True)],
                                       JObj [(''email'', bobCondition True)]])],
                  JObj [(''status'', JStr ''active'')]])]),
              Stage (JObj [(''$project'', JObj [(''name'', JNum (Dec 1 0))])]),
              Sort [(''createdAt'', - 1)], Skip 0, Limit 5])"
  by (simp add: computePipeline_def computePreQuery_example computePostQuery_example
        computeSort_createdAt computeOption_example builder_concat_def)

section \<open>The classification of filter pairs\<close>

text \<open>A key is a post key when it contains at least one of the post-match keywords.\<close>

definition hasPostKeyword :: "string list \<Rightarrow> string \<Rightarrow> bool" where
  "hasPostKeyword kws k = (\<exists>kw \<in> set kws. str_includes k kw)"

text \<open>The key of a condition \<open>{ [key]: value }\<close> of the array.\<close>

definition pairKey :: "jsvalue \<Rightarrow> string" where
  "pairKey c = (case c of JObj ((k, v) # ps) \<Rightarrow> k | _ \<Rightarrow> [])"

lemma preShouldAdd_False: "preShouldAdd kws k False = False"
  by (cases kws) simp_all

lemma preShouldAdd_iff: "preShouldAdd kws k True = (\<not> hasPostKeyword kws k)"
  by (induction kws) (simp_all add: hasPostKeyword_def preShouldAdd_False)

lemma postShouldAdd_True: "postShouldAdd kws k True = True"
  by (cases kws) simp_all

lemma postShouldAdd_iff: "postShouldAdd kws k False = hasPostKeyword kws k"
  by (induction kws) (simp_all add: hasPostKeyword_def postShouldAdd_True)

lemma preQuery_loop_stop:
  "\<not> i \<le> int (length ft) \<or> (key (findNextPair ft i) = [] \<and> value (findNextPair ft i) = []) \<Longrightarrow>
   preQuery_loop kws ft i a = Some (Inr a)"
  by (subst preQuery_loop.simps) (auto simp: Let_def)

lemma postQuery_loop_stop:
  "\<not> i \<le> int (length ft) \<or> (key (findNextPair ft i) = [] \<and> value (findNextPair ft i) = []) \<Longrightarrow>
   postQuery_loop kws ft i a = Some (Inr a)"
  by (subst postQuery_loop.simps) (auto simp: Let_def)

lemma preQuery_loop_step:
  assumes "i \<le> int (length ft)"
      and "\<not> (key (findNextPair ft i) = [] \<and> value (findNextPair ft i) = [])"
  shows "preQuery_loop kws ft i a =
     (if \<not> hasPostKeyword kws (key (findNextPair ft i)) then
        (case normalize (JStr (value (findNextPair ft i))) of
           None \<Rightarrow> None
         | Some (Inl e) \<Rightarrow> Some (Inl e)
         | Some (Inr v) \<Rightarrow> preQuery_loop kws ft (endIndex (findNextPair ft i))
                              (a @ [JObj [(key (findNextPair ft i), v)]]))
      else preQuery_loop kws ft (endIndex (findNextPair ft i)) a)"
  using assms
  by (subst preQuery_loop.simps) (auto simp: Let_def preShouldAdd_iff split: option.split sum.split)

lemma postQuery_loop_step:
  assumes "i \<le> int (length ft)"
      and "\<not> (key (findNextPair ft i) = [] \<and> value (findNextPair ft i) = [])"
  shows "postQuery_loop kws ft i a =
     (if hasPostKeyword kws (key (findNextPair ft i)) then
        (case normalize (JStr (value (findNextPair ft i))) of
           None \<Rightarrow> None
         | Some (Inl e) \<Rightarrow> Some (Inl e)
         | Some (Inr v) \<Rightarrow> postQuery_loop kws ft (endIndex (findNextPair ft i))
                              (a @ [JObj [(key (findNextPair ft i), v)]]))
      else postQuery_loop kws ft (endIndex (findNextPair ft i)) a)"
  using assms
  by (subst postQuery_loop.simps) (auto simp: Let_def postShouldAdd_iff split: option.split sum.split)

text \<open>
  The pairs of a filter text from the index \<open>i\<close>, as the two loops extract them: each call
  of \<open>findNextPair\<close> starts where the pair before ended, and the empty pair ends the scan.
  A pair that is not empty and has the \<open>endIndex\<close> 0 sends both loops back to the index
  0: the scan does not end, and the result is \<open>None\<close>.
\<close>

function pairs_from :: "string \<Rightarrow> int \<Rightarrow> pair list option" where
  "pairs_from ftext i =
     (if i \<le> int (length ftext) then
        (let p = findNextPair ftext i in
         if key p = [] \<and> value p = [] then Some []
         else if endIndex p = 0 then None
         else map_option ((#) p) (pairs_from ftext (endIndex p)))
      else Some [])"
  by pat_completeness auto
termination
proof (relation "measure (\<lambda>(ftext, i). nat (int (length ftext) + 1 - i))", goal_cases)
  case 1
  show ?case by simp
next
  case (2 ftext i p)
  from findNextPair_facts(3)[of ftext i] 2 show ?case by auto
qed

declare pairs_from.simps [simp del]

text \<open>The conditions of a list of pairs, their values normalized from left to right; the
  first error ends the run.\<close>

fun normalizePairs :: "pair list \<Rightarrow> (error + jsvalue list) option" where
  "normalizePairs [] = Some (Inr [])"
| "normalizePairs (p # ps) =
     (case normalize (JStr (value p)) of
        None \<Rightarrow> None
      | Some (Inl e) \<Rightarrow> Some (Inl e)
      | Some (Inr v) \<Rightarrow>
          (case normalizePairs ps of
             None \<Rightarrow> None
           | Some (Inl e) \<Rightarrow> Some (Inl e)
           | Some (Inr vs) \<Rightarrow> Some (Inr (JObj [(key p, v)] # vs))))"

text \<open>The filter with the comma that both functions append when it is missing.\<close>

definition withComma :: "string \<Rightarrow> string" where
  "withComma f = (if \<not> endsWith f '','' then f @ '','' else f)"

text \<open>The array \<open>arr\<close> of \<open>computePreQuery\<close> after its first part, the search.\<close>

definition searchConditions :: "controller \<Rightarrow> jsvalue \<Rightarrow> (error + jsvalue list) option" where
  "searchConditions c search =
     (if (isString search \<or> isObject search) \<and> isExist search \<and> length (searchFields c) > 0
        then (case searchFields_forEach (searchFields c)
                     (if autoRegExpSearch c then transformRegExpSearch search else search) [] of
                None \<Rightarrow> None
              | Some (Inl e) \<Rightarrow> Some (Inl e)
              | Some (Inr sub) \<Rightarrow> Some (Inr [JObj [(''$or'', JArr sub)]]))
      else Some (Inr []))"

lemma pairs_from_Nil:
  "pairs_from ft i = Some [] \<Longrightarrow>
   \<not> i \<le> int (length ft) \<or> (key (findNextPair ft i) = [] \<and> value (findNextPair ft i) = [])"
  by (subst (asm) pairs_from.simps) (auto simp: Let_def split: if_splits)

lemma pairs_from_Cons:
  assumes "pairs_from ft i = Some (p # ps)"
  shows "i \<le> int (length ft) \<and> p = findNextPair ft i \<and> \<not> (key p = [] \<and> value p = []) \<and>
         pairs_from ft (endIndex p) = Some ps"
  using assms by (subst (asm) pairs_from.simps) (auto simp: Let_def split: if_splits)

lemma preQuery_loop_pairs:
  "pairs_from ft i = Some ps \<Longrightarrow>
   preQuery_loop kws ft i arr =
     (case normalizePairs (filter (\<lambda>p. \<not> hasPostKeyword kws (key p)) ps) of
        None \<Rightarrow> None
      | Some (Inl e) \<Rightarrow> Some (Inl e)
      | Some (Inr vs) \<Rightarrow> Some (Inr (arr @ vs)))"
proof (induction ps arbitrary: i arr)
  case Nil
  from pairs_from_Nil[OF Nil] show ?case by (simp add: preQuery_loop_stop)
next
  case (Cons p ps)
  from pairs_from_Cons[OF Cons.prems]
  have le: "i \<le> int (length ft)" and p: "p = findNextPair ft i"
    and ne: "\<not> (key (findNextPair ft i) = [] \<and> value (findNextPair ft i) = [])"
    and r: "pairs_from ft (endIndex p) = Some ps" by auto
  note IH = Cons.IH[OF r]
  show ?case
    unfolding preQuery_loop_step[OF le ne] p[symmetric]
    by (simp add: IH split: option.split sum.split)
qed

lemma postQuery_loop_pairs:
  "pairs_from ft i = Some ps \<Longrightarrow>
   postQuery_loop kws ft i arr =
     (case normalizePairs (filter (\<lambda>p. hasPostKeyword kws (key p)) ps) of
        None \<Rightarrow> None
      | Some (Inl e) \<Rightarrow> Some (Inl e)
      | Some (Inr vs) \<Rightarrow> Some (Inr (arr @ vs)))"
proof (induction ps arbitrary: i arr)
  case Nil
  from pairs_from_Nil[OF Nil] show ?case by (simp add: postQuery_loop_stop)
next
  case (Cons p ps)
  from pairs_from_Cons[OF Cons.prems]
  have le: "i \<le> int (length ft)" and p: "p = findNextPair ft i"
    and ne: "\<not> (key (findNextPair ft i) = [] \<and> value (findNextPair ft i) = [])"
    and r: "pairs_from ft (endIndex p) = Some ps" by auto
  note IH = Cons.IH[OF r]
  show ?case
    unfolding postQuery_loop_step[OF le ne] p[symmetric]
    by (simp add: IH split: option.split sum.split)
qed

lemma computePreQuery_search:
  "computePreQuery c search ftext =
     (case searchConditions c search of
        None \<Rightarrow> None
      | Some (Inl e) \<Rightarrow> Some (Inl e)
      | Some (Inr arr) \<Rightarrow>
          (case (case ftext of
                   JStr f \<Rightarrow> preQuery_loop (postMatchKeywords c) (withComma f) 0 arr
                 | _ \<Rightarrow> Some (Inr arr)) of
             None \<Rightarrow> None
           | Some (Inl e) \<Rightarrow> Some (Inl e)
           | Some (Inr arr') \<Rightarrow>
               Some (Inr [Match (if arr' \<noteq> [] then JObj [(''$and'', JArr arr')] else JObj [])])))"
  unfolding computePreQuery_def searchConditions_def withComma_def builder_match_def
  by (simp split: option.split sum.split)

text \<open>The conditions under \<open>$and\<close> in the match stage of a builder; none when the condition
  is empty or there is no builder.\<close>

definition matchConditions :: "AggregateBuilder option \<Rightarrow> jsvalue list" where
  "matchConditions b = (case b of Some [Match (JObj [(k, JArr xs)])] \<Rightarrow> xs | _ \<Rightarrow> [])"

lemma matchConditions_simps:
  "matchConditions (Some [Match (if xs \<noteq> [] then JObj [(''$and'', JArr xs)] else JObj [])]) = xs"
  "matchConditions (if ys \<noteq> [] then Some [Match (JObj [(''$and'', JArr ys)])] else None) = ys"
  by (simp_all add: matchConditions_def)

lemma normalizePairs_keys:
  "normalizePairs ps = Some (Inr xs) \<Longrightarrow> map pairKey xs = map key ps"
proof (induction ps arbitrary: xs)
  case Nil
  then show ?case by simp
next
  case (Cons p ps)
  then show ?case by (auto simp: pairKey_def split: option.splits sum.splits)
qed

lemma computePreQuery_pairs:
  assumes "pairs_from (withComma f) 0 = Some ps"
  shows "computePreQuery c search (JStr f) =
     (case searchConditions c search of
        None \<Rightarrow> None
      | Some (Inl e) \<Rightarrow> Some (Inl e)
      | Some (Inr sc) \<Rightarrow>
          (case normalizePairs (filter (\<lambda>p. \<not> hasPostKeyword (postMatchKeywords c) (key p)) ps) of
             None \<Rightarrow> None
           | Some (Inl e) \<Rightarrow> Some (Inl e)
           | Some (Inr xs) \<Rightarrow>
               Some (Inr [Match (if sc @ xs \<noteq> [] then JObj [(''$and'', JArr (sc @ xs))] else JObj [])])))"
  unfolding computePreQuery_search
  by (simp add: preQuery_loop_pairs[OF assms] split: option.split sum.split)

lemma computePostQuery_pairs:
  assumes "pairs_from (withComma f) 0 = Some ps"
  shows "computePostQuery c (JStr f) =
     (case normalizePairs (filter (\<lambda>p. hasPostKeyword (postMatchKeywords c) (key p)) ps) of
        None \<Rightarrow> None
      | Some (Inl e) \<Rightarrow> Some (Inl e)
      | Some (Inr ys) \<Rightarrow>
          Some (Inr (if ys \<noteq> [] then Some [Match (JObj [(''$and'', JArr ys)])] else None)))"
  unfolding computePostQuery_def withComma_def[symmetric]
  by (simp add: postQuery_loop_pairs[OF assms] builder_match_def split: option.split sum.split)

text \<open>
  Claim C4, as the code has it. Let the scan of the filter, with its trailing comma, end,
  and let \<open>ps\<close> be its pairs. \<open>computePostQuery\<close> takes exactly the pairs whose key
  contains a post-match keyword and \<open>computePreQuery\<close> exactly the others, each in the
  order of the scan, and each normalizes the values of its own pairs. The first value
  that \<open>normalize\<close> rejects ends that function with the error; otherwise its match stage
  holds one condition for each of its pairs (after the search condition, in
  \<open>computePreQuery\<close>), and \<open>computePostQuery\<close> returns \<open>false\<close> when it has no pair. So
  no pair is taken by both: when both return, and the search gives no condition, the
  keys of the conditions in the two outputs are the two complementary parts of the keys
  of \<open>ps\<close>, those without a keyword and those with one.
\<close>

theorem classification_partition:
  assumes "pairs_from (withComma f) 0 = Some ps"
  shows "computePreQuery c search (JStr f) =
     (case searchConditions c search of
        None \<Rightarrow> None
      | Some (Inl e) \<Rightarrow> Some (Inl e)
      | Some (Inr sc) \<Rightarrow>
          (case normalizePairs (filter (\<lambda>p. \<not> hasPostKeyword (postMatchKeywords c) (key p)) ps) of
             None \<Rightarrow> None
           | Some (Inl e) \<Rightarrow> Some (Inl e)
           | Some (Inr xs) \<Rightarrow>
               Some (Inr [Match (if sc @ xs \<noteq> [] then JObj [(''$and'', JArr (sc @ xs))] else JObj [])]))) \<and>
   computePostQuery c (JStr f) =
     (case normalizePairs (filter (\<lambda>p. hasPostKeyword (postMatchKeywords c) (key p)) ps) of
        None \<Rightarrow> None
      | Some (Inl e) \<Rightarrow> Some (Inl e)
      | Some (Inr ys) \<Rightarrow>
          Some (Inr (if ys \<noteq> [] then Some [Match (JObj [(''$and'', JArr ys)])] else None))) \<and>
   (\<forall>b q.
      searchConditions c search = Some (Inr []) \<and>
      computePreQuery c search (JStr f) = Some (Inr b) \<and> computePostQuery c (JStr f) = Some (Inr q) \<longrightarrow>
      map pairKey (matchConditions (Some b)) =
        filter (\<lambda>k. \<not> hasPostKeyword (postMatchKeywords c) k) (map key ps) \<and>
      map pairKey (matchConditions q) =
        filter (\<lambda>k. hasPostKeyword (postMatchKeywords c) k) (map key ps))"
proof (intro conjI allI impI)
  let ?pre = "filter (\<lambda>p. \<not> hasPostKeyword (postMatchKeywords c) (key p)) ps"
  let ?post = "filter (\<lambda>p. hasPostKeyword (postMatchKeywords c) (key p)) ps"
  note pre = computePreQuery_pairs[OF assms, of c search]
  note post = computePostQuery_pairs[OF assms, of c]
  show "computePreQuery c search (JStr f) =
     (case searchConditions c search of
        None \<Rightarrow> None
      | Some (Inl e) \<Rightarrow> Some (Inl e)
      | Some (Inr sc) \<Rightarrow>
          (case normalizePairs ?pre of
             None \<Rightarrow> None
           | Some (Inl e) \<Rightarrow> Some (Inl e)
           | Some (Inr xs) \<Rightarrow>
               Some (Inr [Match (if sc @ xs \<noteq> [] then JObj [(''$and'', JArr (sc @ xs))] else JObj [])])))"
    by (rule pre)
  show "computePostQuery c (JStr f) =
     (case normalizePairs ?post of
        None \<Rightarrow> None
      | Some (Inl e) \<Rightarrow> Some (Inl e)
      | Some (Inr ys) \<Rightarrow>
          Some (Inr (if ys \<noteq> [] then Some [Match (JObj [(''$and'', JArr ys)])] else None)))"
    by (rule post)
  fix b q
  assume a: "searchConditions c search = Some (Inr []) \<and>
      computePreQuery c search (JStr f) = Some (Inr b) \<and> computePostQuery c (JStr f) = Some (Inr q)"
  from a pre obtain xs where xs: "normalizePairs ?pre = Some (Inr xs)"
    and b: "b = [Match (if xs \<noteq> [] then JObj [(''$and'', JArr xs)] else JObj [])]"
    by (auto split: option.splits sum.splits)
  from a post obtain ys where ys: "normalizePairs ?post = Some (Inr ys)"
    and q: "q = (if ys \<noteq> [] then Some [Match (JObj [(''$and'', JArr ys)])] else None)"
    by (auto split: option.splits sum.splits)
  show "map pairKey (matchConditions (Some b)) =
        filter (\<lambda>k. \<not> hasPostKeyword (postMatchKeywords c) k) (map key ps)"
    unfolding b matchConditions_simps using normalizePairs_keys[OF xs]
    by (simp add: filter_map comp_def)
  show "map pairKey (matchConditions q) =
        filter (\<lambda>k. hasPostKeyword (postMatchKeywords c) k) (map key ps)"
    unfolding q matchConditions_simps using normalizePairs_keys[OF ys]
    by (simp add: filter_map comp_def)
qed

lemma normalize_x: "normalize (JStr ''x'') = Some (Inr (JStr ''x''))"
  by (simp add: normalize_Single value_defs string_defs number_defs date_defs toLowerCase_def
        lowerChar_def Let_def)

lemma findNextPair_name_status:
  "findNextPair ''name:x,status:active,'' 0 = \<lparr>startIndex = 0, endIndex = 7, key = ''name'', value = ''x''\<rparr>"
  "findNextPair ''name:x,status:active,'' 7 = \<lparr>startIndex = 7, endIndex = 21, key = ''status'', value = ''active''\<rparr>"
  "findNextPair ''name:x,status:active,'' 21 = \<lparr>startIndex = 21, endIndex = 0, key = [], value = []\<rparr>"
  by (simp_all add: findNextPair_eval)

lemma pairs_from_name_status:
  "pairs_from ''name:x,status:active,'' 0 =
     Some [\<lparr>startIndex = 0, endIndex = 7, key = ''name'', value = ''x''\<rparr>,
           \<lparr>startIndex = 7, endIndex = 21, key = ''status'', value = ''active''\<rparr>]"
  by (subst pairs_from.simps, simp add: findNextPair_name_status,
      subst pairs_from.simps, simp add: findNextPair_name_status,
      subst pairs_from.simps, simp add: findNextPair_name_status)

lemma hasPostKeyword_status:
  "\<not> hasPostKeyword [''status''] ''name''" "hasPostKeyword [''status''] ''status''"
  by (simp_all add: hasPostKeyword_def)

theorem classification_partition_witness:
  "pairs_from (withComma ''name:x,status:active,'') 0 =
     Some [\<lparr>startIndex = 0, endIndex = 7, key = ''name'', value = ''x''\<rparr>,
           \<lparr>startIndex = 7, endIndex = 21, key = ''status'', value = ''active''\<rparr>] \<and>
   computePreQuery
     \<lparr>autoRegExpSearch = False, searchFields = [], postMatchKeywords = [''status''],
      buildAggregateBuilder = []\<rparr> JUndefined (JStr ''name:x,status:active,'') =
     Some (Inr [Match (JObj [(''$and'', JArr [JObj [(''name'', JStr ''x'')]])])]) \<and>
   computePostQuery
     \<lparr>autoRegExpSearch = False, searchFields = [], postMatchKeywords = [''status''],
      buildAggregateBuilder = []\<rparr> (JStr ''name:x,status:active,'') =
     Some (Inr (Some [Match (JObj [(''$and'', JArr [JObj [(''status'', JStr ''active'')]])])]))"
proof -
  have w: "withComma ''name:x,status:active,'' = ''name:x,status:active,''"
    by (simp add: withComma_def endsWith_def)
  have p: "pairs_from (withComma ''name:x,status:active,'') 0 =
     Some [\<lparr>startIndex = 0, endIndex = 7, key = ''name'', value = ''x''\<rparr>,
           \<lparr>startIndex = 7, endIndex = 21, key = ''status'', value = ''active''\<rparr>]"
    unfolding w by (rule pairs_from_name_status)
  have s: "searchConditions \<lparr>autoRegExpSearch = False, searchFields = [], postMatchKeywords = [''status''],
      buildAggregateBuilder = []\<rparr> JUndefined = Some (Inr [])"
    by (simp add: searchConditions_def)
  from classification_partition[OF p, of
      "\<lparr>autoRegExpSearch = False, searchFields = [], postMatchKeywords = [''status''],
      buildAggregateBuilder = []\<rparr>" JUndefined] p
  show ?thesis
    by (simp add: s hasPostKeyword_status normalize_x normalize_active)
qed

lemma normalize_blank: "normalize (JStr []) = Some (Inr (JNum (Dec 0 0)))"
  by (simp add: normalize_Single value_defs StringToNumber_empty string_defs toLowerCase_def)

lemma findNextPair_abc:
  "findNextPair ''abc,'' 0 = \<lparr>startIndex = 0, endIndex = 0, key = ''abc'', value = []\<rparr>"
  by (simp add: findNextPair_eval)

lemma preQuery_loop_abc: "preQuery_loop kws ''abc,'' 0 arr = None"
proof -
  define P where "P = (\<lambda>(ks :: string list) (ft :: string) (i :: int) (arr :: jsvalue list)
       (y :: error + jsvalue list). \<not> (ft = ''abc,'' \<and> i = 0))"
  have "P kws ''abc,'' 0 arr y" if run: "preQuery_loop kws ''abc,'' 0 arr = Some y" for y
  proof (rule preQuery_loop.raw_induct[where P = P, OF _ run], goal_cases)
    case (1 f ks ft i arr y)
    show ?case unfolding P_def
    proof
      assume a: "ft = ''abc,'' \<and> i = 0"
      from 1(2) obtain arr' where "f ks ''abc,'' 0 arr' = Some y"
        unfolding a[THEN conjunct1] a[THEN conjunct2]
        by (auto simp: findNextPair_abc normalize_blank Let_def split: if_splits option.splits sum.splits)
      from 1(1)[OF this] show False by (simp add: P_def)
    qed
  qed
  then have "preQuery_loop kws ''abc,'' 0 arr \<noteq> Some y" for y by (auto simp: P_def)
  then show ?thesis by (cases "preQuery_loop kws ''abc,'' 0 arr") auto
qed

lemma postQuery_loop_abc: "postQuery_loop kws ''abc,'' 0 arr = None"
proof -
  define P where "P = (\<lambda>(ks :: string list) (ft :: string) (i :: int) (arr :: jsvalue list)
       (y :: error + jsvalue list). \<not> (ft = ''abc,'' \<and> i = 0))"
  have "P kws ''abc,'' 0 arr y" if run: "postQuery_loop kws ''abc,'' 0 arr = Some y" for y
  proof (rule postQuery_loop.raw_induct[where P = P, OF _ run], goal_cases)
    case (1 f ks ft i arr y)
    show ?case unfolding P_def
    proof
      assume a: "ft = ''abc,'' \<and> i = 0"
      from 1(2) obtain arr' where "f ks ''abc,'' 0 arr' = Some y"
        unfolding a[THEN conjunct1] a[THEN conjunct2]
        by (auto simp: findNextPair_abc normalize_blank Let_def split: if_splits option.splits sum.splits)
      from 1(1)[OF this] show False by (simp add: P_def)
    qed
  qed
  then have "postQuery_loop kws ''abc,'' 0 arr \<noteq> Some y" for y by (auto simp: P_def)
  then show ?thesis by (cases "postQuery_loop kws ''abc,'' 0 arr") auto
qed

lemma withComma_abc: "withComma ''abc'' = ''abc,''"
  by (simp add: withComma_def endsWith_def)

lemma computePreQuery_abc:
  "searchConditions c search = Some (Inr sc) \<Longrightarrow> computePreQuery c search (JStr ''abc'') = None"
  by (simp add: computePreQuery_search withComma_abc preQuery_loop_abc)

lemma computePostQuery_abc: "computePostQuery c (JStr ''abc'') = None"
  by (simp add: computePostQuery_def withComma_def[symmetric] withComma_abc postQuery_loop_abc)

lemma findNextPair_abe:
  "findNextPair ''a:1,b:{c:2,d:3},e:5,'' 0 = \<lparr>startIndex = 0, endIndex = 4, key = ''a'', value = ''1''\<rparr>"
  "findNextPair ''a:1,b:{c:2,d:3},e:5,'' 4 = \<lparr>startIndex = 4, endIndex = 16, key = ''b'', value = ''{c:2,d:3}''\<rparr>"
  "findNextPair ''a:1,b:{c:2,d:3},e:5,'' 16 = \<lparr>startIndex = 16, endIndex = 20, key = ''e'', value = ''5''\<rparr>"
  "findNextPair ''a:1,b:{c:2,d:3},e:5,'' 20 = \<lparr>startIndex = 20, endIndex = 0, key = [], value = []\<rparr>"
  by (simp_all add: findNextPair_eval)

lemma pairs_from_abe:
  "pairs_from ''a:1,b:{c:2,d:3},e:5,'' 0 =
     Some [\<lparr>startIndex = 0, endIndex = 4, key = ''a'', value = ''1''\<rparr>,
           \<lparr>startIndex = 4, endIndex = 16, key = ''b'', value = ''{c:2,d:3}''\<rparr>,
           \<lparr>startIndex = 16, endIndex = 20, key = ''e'', value = ''5''\<rparr>]"
  by (subst pairs_from.simps, simp add: findNextPair_abe,
      subst pairs_from.simps, simp add: findNextPair_abe,
      subst pairs_from.simps, simp add: findNextPair_abe,
      subst pairs_from.simps, simp add: findNextPair_abe)

lemma normalize_abe:
  "normalize (JStr ''1'') = Some (Inr (JNum (Dec 1 0)))"
  "normalize (JStr ''5'') = Some (Inr (JNum (Dec 5 0)))"
  "normalize (JStr ''{c:2,d:3}'') = Some (Inl SyntaxError)"
    by (simp_all add: normalize_Single value_defs string_defs number_defs date_defs toLowerCase_def
        lowerChar_def canon.simps Let_def JSON_parse_def skipWs_def isJSONWhitespace_def)

lemma hasPostKeyword_b:
  "\<not> hasPostKeyword [''b''] ''a''" "hasPostKeyword [''b''] ''b''" "\<not> hasPostKeyword [''b''] ''e''"
  by (simp_all add: hasPostKeyword_def)

text \<open>
  Claim C4 as stated fails. With the keyword \<open>b\<close>, the filter \<open>a:1,b:{c:2,d:3},e:5,\<close>
  gives the match stage on \<open>a\<close> and \<open>e\<close>, and \<open>computePostQuery\<close> raises a syntax error on
  the value of \<open>b\<close>: that pair is in neither output. On the filter \<open>abc\<close> neither function
  returns.
\<close>

theorem classification_partition_counterexample:
  "computePreQuery
     \<lparr>autoRegExpSearch = False, searchFields = [], postMatchKeywords = [''b''],
      buildAggregateBuilder = []\<rparr> JUndefined (JStr ''a:1,b:{c:2,d:3},e:5,'') =
     Some (Inr [Match (JObj [(''$and'', JArr [JObj [(''a'', JNum (Dec 1 0))],
                                             JObj [(''e'', JNum (Dec 5 0))]])])]) \<and>
   computePostQuery
     \<lparr>autoRegExpSearch = False, searchFields = [], postMatchKeywords = [''b''],
      buildAggregateBuilder = []\<rparr> (JStr ''a:1,b:{c:2,d:3},e:5,'') = Some (Inl SyntaxError) \<and>
   computePreQuery
     \<lparr>autoRegExpSearch = False, searchFields = [], postMatchKeywords = [''b''],
      buildAggregateBuilder = []\<rparr> JUndefined (JStr ''abc'') = None \<and>
   computePostQuery
     \<lparr>autoRegExpSearch = False, searchFields = [], postMatchKeywords = [''b''],
      buildAggregateBuilder = []\<rparr> (JStr ''abc'') = None"
proof -
  have w: "withComma ''a:1,b:{c:2,d:3},e:5,'' = ''a:1,b:{c:2,d:3},e:5,''"
    by (simp add: withComma_def endsWith_def)
  have p: "pairs_from (withComma ''a:1,b:{c:2,d:3},e:5,'') 0 =
     Some [\<lparr>startIndex = 0, endIndex = 4, key = ''a'', value = ''1''\<rparr>,
           \<lparr>startIndex = 4, endIndex = 16, key = ''b'', value = ''{c:2,d:3}''\<rparr>,
           \<lparr>startIndex = 16, endIndex = 20, key = ''e'', value = ''5''\<rparr>]"
    unfolding w by (rule pairs_from_abe)
  have s: "searchConditions \<lparr>autoRegExpSearch = False, searchFields = [], postMatchKeywords = [''b''],
      buildAggregateBuilder = []\<rparr> JUndefined = Some (Inr [])"
    by (simp add: searchConditions_def)
  show ?thesis
    by (simp add: computePreQuery_pairs[OF p] computePostQuery_pairs[OF p] s hasPostKeyword_b normalize_abe
          computePreQuery_abc[OF s] computePostQuery_abc)
qed

section \<open>Printing a number and reading it back\<close>

definition canonical :: "jsnum \<Rightarrow> bool" where
  "canonical n = (case n of Dec m e \<Rightarrow> (m = 0 \<and> e = 0) \<or> (m \<noteq> 0 \<and> m mod 10 \<noteq> 0) | NaN \<Rightarrow> False | _ \<Rightarrow> True)"

lemma canon_canonical: "canonical (canon m e)"
  by (induction m e rule: canon.induct) (subst canon.simps, simp add: canonical_def)

lemma canon_id: "m \<noteq> 0 \<Longrightarrow> m mod 10 \<noteq> 0 \<Longrightarrow> canon m e = Dec m e"
  by (subst canon.simps) simp

lemma canon_zero: "canon 0 e = Dec 0 0"
  by (subst canon.simps) simp

lemma canon_times_ten: "m \<noteq> 0 \<Longrightarrow> canon (m * 10) e = canon m (e + 1)"
  by (subst canon.simps) simp

lemma canon_power: "m \<noteq> 0 \<Longrightarrow> canon (m * 10 ^ j) e = canon m (e + int j)"
proof (induction j arbitrary: e)
  case 0
  then show ?case by simp
next
  case (Suc j)
  have "m * 10 ^ Suc j = (m * 10 ^ j) * 10" by simp
  then have "canon (m * 10 ^ Suc j) e = canon ((m * 10 ^ j) * 10) e" by (rule arg_cong)
  also have "\<dots> = canon (m * 10 ^ j) (e + 1)" using Suc.prems by (intro canon_times_ten) simp
  also have "\<dots> = canon m (e + 1 + int j)" using Suc by simp
  finally show ?case by (simp add: add.assoc)
qed

lemma digit_char_all:
  "\<forall>d \<in> {0..<10::int}. isDigit (char_of (48 + d)) \<and> digitVal (char_of (48 + d)) = d"
  by code_simp

lemma digit_char: "0 \<le> d \<Longrightarrow> d < 10 \<Longrightarrow> isDigit (char_of (48 + d :: int)) \<and> digitVal (char_of (48 + d)) = d"
  using digit_char_all by simp

lemma numeral_of_snoc: "numeral_of b (xs @ [c]) = numeral_of b xs * b + digitVal c"
  by (simp add: numeral_of_def)

lemma digits_facts:
  "0 \<le> n \<Longrightarrow> list_all isDigit (digits n) \<and> digits n \<noteq> [] \<and> numeral_of 10 (digits n) = n"
proof (induction n rule: digits.induct)
  case (1 n)
  show ?case
  proof (cases "n < 10")
    case True
    with 1(2) digit_char[of n] show ?thesis
      by (subst (1 2 3) digits.simps) (simp add: numeral_of_def)
  next
    case False
    then have "0 \<le> n div 10" using 1(2) by simp
    from 1(1)[OF False this] digit_char[of "n mod 10"] False show ?thesis
      by (subst (1 2 3) digits.simps) (simp add: numeral_of_snoc)
  qed
qed

lemma not_digit: "\<not> isDigit CHR ''.''" "\<not> isDigit CHR ''e''" "\<not> isDigit CHR ''-''" "\<not> isDigit CHR ''+''"
  by (simp_all add: isDigit_def)

lemma span_digits:
  assumes "list_all isDigit xs" "ys = [] \<or> \<not> isDigit (hd ys)"
  shows "takeWhile isDigit (xs @ ys) = xs" "dropWhile isDigit (xs @ ys) = ys"
proof -
  have a: "\<And>x. x \<in> set xs \<Longrightarrow> isDigit x" using assms(1) by (simp add: list_all_iff)
  have b: "takeWhile isDigit ys = []" "dropWhile isDigit ys = ys"
    using assms(2) by (cases ys; simp)+
  show "takeWhile isDigit (xs @ ys) = xs" using a b by (simp add: takeWhile_append2)
  show "dropWhile isDigit (xs @ ys) = ys" using a b by (simp add: dropWhile_append2)
qed

lemma exponentPart_print:
  "exponentPart (''e'' @ (if x < 0 then ''-'' else ''+'') @ digits \<bar>x\<bar>) = Some x"
  using digits_facts[of "\<bar>x\<bar>"]
  by (auto simp: exponentPart_def startsWith_def Let_def)

lemma unsignedDecimal_parts:
  assumes ip: "list_all isDigit ip" and fp: "list_all isDigit fp"
      and ep: "ep = [] \<or> hd ep \<in> set ''eE''"
      and ne: "ip \<noteq> [] \<or> fp \<noteq> []"
      and dot: "dot \<or> fp = []"
  shows "unsignedDecimal (ip @ (if dot then ''.'' @ fp else []) @ ep) =
     (case exponentPart ep of
        None \<Rightarrow> None
      | Some x \<Rightarrow> Some (numeral_of 10 (ip @ fp), x - int (length fp)))"
proof -
  have epd: "ep = [] \<or> \<not> isDigit (hd ep)" using ep by (auto simp: isDigit_def)
  have epdot: "\<not> startsWith ep ''.''" using ep by (cases ep) (auto simp: startsWith_def)
  show ?thesis
  proof (cases dot)
    case True
    let ?r1 = "CHR ''.'' # fp @ ep"
    have h: "?r1 = [] \<or> \<not> isDigit (hd ?r1)" by (simp add: not_digit)
    have 1: "takeWhile isDigit (ip @ ?r1) = ip" "dropWhile isDigit (ip @ ?r1) = ?r1"
      using span_digits[OF ip h] by simp_all
    have 2: "takeWhile isDigit (fp @ ep) = fp" "dropWhile isDigit (fp @ ep) = ep"
      using span_digits[OF fp epd] by simp_all
    show ?thesis
      using True ne by (auto simp: unsignedDecimal_def 1 2 startsWith_def Let_def split: option.split)
  next
    case False
    then have f: "fp = []" using dot by simp
    have 1: "takeWhile isDigit (ip @ ep) = ip" "dropWhile isDigit (ip @ ep) = ep"
      using span_digits[OF ip epd] by simp_all
    show ?thesis
      using False f ne epdot by (auto simp: unsignedDecimal_def 1 Let_def split: option.split)
  qed
qed

lemma numeral_of_append:
  "numeral_of b (xs @ ys) = numeral_of b xs * b ^ length ys + numeral_of b ys"
proof (induction ys rule: rev_induct)
  case Nil
  then show ?case by (simp add: numeral_of_def)
next
  case (snoc y ys)
  have "numeral_of b (xs @ ys @ [y]) = numeral_of b (xs @ ys) * b + digitVal y"
    using numeral_of_snoc[of b "xs @ ys" y] by simp
  then show ?case using snoc by (simp add: numeral_of_snoc algebra_simps)
qed

lemma numeral_of_zeros: "numeral_of 10 (replicate j CHR ''0'') = 0"
proof (induction j)
  case 0
  then show ?case by (simp add: numeral_of_def)
next
  case (Suc j)
  have "replicate (Suc j) CHR ''0'' = replicate j CHR ''0'' @ ''0''"
    by (simp add: replicate_append_same)
  then have "numeral_of 10 (replicate (Suc j) CHR ''0'') = numeral_of 10 (replicate j CHR ''0'') * 10 + digitVal CHR ''0''"
    by (simp only: numeral_of_snoc)
  then show ?case using Suc by (simp add: digitVal_def)
qed

lemma zeros_digits: "list_all isDigit (replicate j CHR ''0'')"
  by (simp add: list_all_iff isDigit_def)

lemma positiveToString_cases:
  fixes s e :: int
  defines "ds \<equiv> digits s"
  defines "k \<equiv> int (length ds)"
  defines "n \<equiv> k + e"
  defines "ep \<equiv> ''e'' @ (if n - 1 < 0 then ''-'' else ''+'') @ digits \<bar>n - 1\<bar>"
  shows "k \<le> n \<Longrightarrow> n \<le> 21 \<Longrightarrow> positiveToString s e = ds @ replicate (nat (n - k)) CHR ''0''"
    and "\<not> k \<le> n \<Longrightarrow> 0 < n \<Longrightarrow> n \<le> 21 \<Longrightarrow>
           positiveToString s e = take (nat n) ds @ ''.'' @ drop (nat n) ds"
    and "- 6 < n \<Longrightarrow> n \<le> 0 \<Longrightarrow> 0 < k \<Longrightarrow>
           positiveToString s e = ''0'' @ ''.'' @ (replicate (nat (- n)) CHR ''0'' @ ds)"
    and "21 < n \<or> n \<le> - 6 \<Longrightarrow> k = 1 \<Longrightarrow> positiveToString s e = ds @ ep"
    and "21 < n \<or> n \<le> - 6 \<Longrightarrow> k \<noteq> 1 \<Longrightarrow>
           positiveToString s e = take 1 ds @ ''.'' @ drop 1 ds @ ep"
proof -
  have k0: "0 \<le> k" by (simp add: k_def)
  have u: "positiveToString s e =
     (if k \<le> n \<and> n \<le> 21 then ds @ replicate (nat (n - k)) CHR ''0''
      else if 0 < n \<and> n \<le> 21 then take (nat n) ds @ ''.'' @ drop (nat n) ds
      else if - 6 < n \<and> n \<le> 0 then ''0.'' @ replicate (nat (- n)) CHR ''0'' @ ds
      else if k = 1 then ds @ ep else take 1 ds @ ''.'' @ drop 1 ds @ ep)"
    unfolding positiveToString_def Let_def ds_def[symmetric] k_def[symmetric] n_def[symmetric] ep_def
    by (rule refl)
  show "k \<le> n \<Longrightarrow> n \<le> 21 \<Longrightarrow> positiveToString s e = ds @ replicate (nat (n - k)) CHR ''0''"
    unfolding u by simp
  show "\<not> k \<le> n \<Longrightarrow> 0 < n \<Longrightarrow> n \<le> 21 \<Longrightarrow>
           positiveToString s e = take (nat n) ds @ ''.'' @ drop (nat n) ds"
    unfolding u by simp
  show "- 6 < n \<Longrightarrow> n \<le> 0 \<Longrightarrow> 0 < k \<Longrightarrow>
           positiveToString s e = ''0'' @ ''.'' @ (replicate (nat (- n)) CHR ''0'' @ ds)"
    unfolding u by simp
  show "21 < n \<or> n \<le> - 6 \<Longrightarrow> k = 1 \<Longrightarrow> positiveToString s e = ds @ ep"
    unfolding u using k0 by auto
  show "21 < n \<or> n \<le> - 6 \<Longrightarrow> k \<noteq> 1 \<Longrightarrow>
           positiveToString s e = take 1 ds @ ''.'' @ drop 1 ds @ ep"
    unfolding u using k0 by auto
qed

lemma positiveToString_parse:
  assumes s: "0 < s"
  shows "\<exists>M E. unsignedDecimal (positiveToString s e) = Some (M, E) \<and> 0 < M \<and>
           (\<exists>j. M = s * 10 ^ j \<and> E + int j = e)"
proof -
  let ?ds = "digits s"
  let ?k = "int (length ?ds)"
  let ?n = "?k + e"
  have d: "list_all isDigit ?ds" "?ds \<noteq> []" "numeral_of 10 ?ds = s"
    using digits_facts[of s] s by simp_all
  have k: "0 < ?k" using d(2) by simp
  note U = unsignedDecimal_parts
  note P = positiveToString_cases[of s e]
  consider (A) "?k \<le> ?n" "?n \<le> 21"
    | (B) "\<not> ?k \<le> ?n" "0 < ?n" "?n \<le> 21"
    | (C) "- 6 < ?n" "?n \<le> 0"
    | (D) "21 < ?n \<or> ?n \<le> - 6"
    by linarith
  then show ?thesis
  proof cases
    case A
    let ?z = "replicate (nat (?n - ?k)) CHR ''0''"
    have p: "positiveToString s e = ?ds @ ?z" using A by (rule P(1))
    have da: "list_all isDigit (?ds @ ?z)" using d(1) zeros_digits by simp
    have "unsignedDecimal ((?ds @ ?z) @ (if False then ''.'' @ [] else []) @ []) =
            (case exponentPart [] of None \<Rightarrow> None
             | Some x \<Rightarrow> Some (numeral_of 10 ((?ds @ ?z) @ []), x - int (length ([] :: string))))"
      by (rule U) (use da d(2) in simp_all)
    then have u: "unsignedDecimal (?ds @ ?z) = Some (numeral_of 10 (?ds @ ?z), 0)"
      by (simp add: exponentPart_def)
    have v: "numeral_of 10 (?ds @ ?z) = s * 10 ^ nat (?n - ?k)"
      by (simp add: numeral_of_append numeral_of_zeros d(3))
    have "0 < s * 10 ^ nat (?n - ?k)" using s by simp
    moreover have "0 + int (nat (?n - ?k)) = e" using A by simp
    ultimately show ?thesis unfolding p u v by blast
  next
    case B
    let ?ip = "take (nat ?n) ?ds" and ?fp = "drop (nat ?n) ?ds"
    have p: "positiveToString s e = ?ip @ ''.'' @ ?fp" using B by (rule P(2))
    have ne: "?ip \<noteq> []" using B d(2) by simp
    have dd: "list_all isDigit ?ip" "list_all isDigit ?fp"
      using d(1) by (auto simp: list_all_iff dest: in_set_takeD in_set_dropD)
    have "unsignedDecimal (?ip @ (if True then ''.'' @ ?fp else []) @ []) =
            (case exponentPart [] of None \<Rightarrow> None
             | Some x \<Rightarrow> Some (numeral_of 10 (?ip @ ?fp), x - int (length ?fp)))"
      by (rule U) (use dd ne in simp_all)
    then have u: "unsignedDecimal (?ip @ ''.'' @ ?fp) = Some (s, - int (length ?fp))"
      by (simp add: exponentPart_def d(3))
    have "- int (length ?fp) + int 0 = e" using B by simp
    then show ?thesis unfolding p u using s
      by (intro exI[of _ s] exI[of _ "- int (length ?fp)"] conjI exI[of _ 0]) simp_all
  next
    case C
    let ?z = "replicate (nat (- ?n)) CHR ''0''"
    have p: "positiveToString s e = ''0'' @ ''.'' @ (?z @ ?ds)" using C k by (rule P(3))
    have dd: "list_all isDigit ''0''" "list_all isDigit (?z @ ?ds)"
      using d(1) zeros_digits by (simp_all add: isDigit_def)
    have "unsignedDecimal (''0'' @ (if True then ''.'' @ (?z @ ?ds) else []) @ []) =
            (case exponentPart [] of None \<Rightarrow> None
             | Some x \<Rightarrow> Some (numeral_of 10 (''0'' @ (?z @ ?ds)), x - int (length (?z @ ?ds))))"
      by (rule U) (use dd in simp_all)
    moreover have "numeral_of 10 (''0'' @ (?z @ ?ds)) = s"
    proof -
      have "''0'' @ ?z = replicate (Suc (nat (- ?n))) CHR ''0''" by simp
      then have "numeral_of 10 (''0'' @ ?z) = 0" by (simp only: numeral_of_zeros)
      then show ?thesis using numeral_of_append[of 10 "''0'' @ ?z" ?ds] by (simp add: d(3))
    qed
    ultimately have u: "unsignedDecimal (''0'' @ ''.'' @ (?z @ ?ds)) = Some (s, - int (length (?z @ ?ds)))"
      by (simp add: exponentPart_def)
    have "- int (length (?z @ ?ds)) + int 0 = e" using C by simp
    then show ?thesis unfolding p u using s
      by (intro exI[of _ s] exI[of _ "- int (length (?z @ ?ds))"] conjI exI[of _ 0]) simp_all
  next
    case D
    let ?x = "?n - 1"
    define ep where "ep = ''e'' @ (if ?x < 0 then ''-'' else ''+'') @ digits \<bar>?x\<bar>"
    have ep: "exponentPart ep = Some ?x" unfolding ep_def by (rule exponentPart_print)
    have eph: "ep = [] \<or> hd ep \<in> set ''eE''" by (simp add: ep_def)
    show ?thesis
    proof (cases "?k = 1")
      case True
      have p: "positiveToString s e = ?ds @ ep" unfolding ep_def using D True by (rule P(4))
      have "unsignedDecimal (?ds @ (if False then ''.'' @ [] else []) @ ep) =
            (case exponentPart ep of None \<Rightarrow> None
             | Some x \<Rightarrow> Some (numeral_of 10 (?ds @ []), x - int (length ([] :: string))))"
        by (rule U) (use d eph in simp_all)
      then have u: "unsignedDecimal (?ds @ ep) = Some (s, ?x)"
        by (simp add: ep d(3))
      have "?x + int 0 = e" using True by simp
      then show ?thesis unfolding p u using s
        by (intro exI[of _ s] exI[of _ ?x] conjI exI[of _ 0]) simp_all
    next
      case False
      let ?ip = "take 1 ?ds" and ?fp = "drop 1 ?ds"
      have p: "positiveToString s e = ?ip @ ''.'' @ ?fp @ ep" unfolding ep_def using D False by (rule P(5))
      have ne: "?ip \<noteq> []" using d(2) by simp
      have dd: "list_all isDigit ?ip" "list_all isDigit ?fp"
        using d(1) by (auto simp: list_all_iff dest: in_set_takeD in_set_dropD)
      have "unsignedDecimal (?ip @ (if True then ''.'' @ ?fp else []) @ ep) =
            (case exponentPart ep of None \<Rightarrow> None
             | Some x \<Rightarrow> Some (numeral_of 10 (?ip @ ?fp), x - int (length ?fp)))"
        by (rule U) (use dd ne eph in simp_all)
      then have u: "unsignedDecimal (?ip @ ''.'' @ ?fp @ ep) = Some (s, ?x - int (length ?fp))"
        by (simp add: ep d(3))
      have "int (length ?fp) = ?k - 1" using d(2) by (cases ?ds) simp_all
      then have "?x - int (length ?fp) + int 0 = e" by simp
      then show ?thesis unfolding p u using s
        by (intro exI[of _ s] exI[of _ "?x - int (length ?fp)"] conjI exI[of _ 0]) simp_all
    qed
  qed
qed

definition numberChars :: "char set" where
  "numberChars = set ''0123456789.e+-''"

lemma digit_numberChar: "isDigit c \<Longrightarrow> c \<in> numberChars"
  by (auto simp: isDigit_def numberChars_def)

lemma digits_numberChars: "list_all isDigit xs \<Longrightarrow> set xs \<subseteq> numberChars"
  by (auto simp: list_all_iff digit_numberChar)

lemma positiveToString_chars:
  assumes s: "0 < s"
  shows "set (positiveToString s e) \<subseteq> numberChars \<and> positiveToString s e \<noteq> [] \<and>
         isDigit (hd (positiveToString s e)) \<and> isDigit (last (positiveToString s e))"
proof -
  let ?ds = "digits s"
  let ?k = "int (length ?ds)"
  let ?n = "?k + e"
  have d: "list_all isDigit ?ds" "?ds \<noteq> []"
    using digits_facts[of s] s by simp_all
  have dc: "set ?ds \<subseteq> numberChars" using d(1) by (rule digits_numberChars)
  have hd: "isDigit (hd ?ds)" "isDigit (last ?ds)" using d by (auto simp: list_all_iff)
  have k: "0 < ?k" using d(2) by simp
  note P = positiveToString_cases[of s e]
  have tk: "set (take j ?ds) \<subseteq> numberChars" "set (drop j ?ds) \<subseteq> numberChars" for j
    using dc by (auto dest: in_set_takeD in_set_dropD)
  have zc: "set (replicate j CHR ''0'') \<subseteq> numberChars" for j
    by (auto simp: numberChars_def)
  have z0: "isDigit CHR ''0''" by (simp add: isDigit_def)
  consider (A) "?k \<le> ?n" "?n \<le> 21"
    | (B) "\<not> ?k \<le> ?n" "0 < ?n" "?n \<le> 21"
    | (C) "- 6 < ?n" "?n \<le> 0"
    | (D) "21 < ?n \<or> ?n \<le> - 6"
    by linarith
  then show ?thesis
  proof cases
    case A
    show ?thesis unfolding P(1)[OF A] using dc zc d(2) hd z0 by (auto simp: last_append)
  next
    case B
    have "drop (nat ?n) ?ds \<noteq> []" using B by simp
    moreover have "take (nat ?n) ?ds \<noteq> []" using B d(2) by simp
    moreover have "hd (take (nat ?n) ?ds) = hd ?ds" using B d(2) by (cases ?ds) (simp_all add: take_Cons')
    ultimately show ?thesis unfolding P(2)[OF B] using tk hd
      by (auto simp: last_append numberChars_def last_drop)
  next
    case C
    show ?thesis unfolding P(3)[OF C k] using dc zc d(2) hd z0
      by (auto simp: last_append numberChars_def)
  next
    case D
    define ep where "ep = ''e'' @ (if ?n - 1 < 0 then ''-'' else ''+'') @ digits \<bar>?n - 1\<bar>"
    have x: "list_all isDigit (digits \<bar>?n - 1\<bar>)" "digits \<bar>?n - 1\<bar> \<noteq> []"
      using digits_facts[of "\<bar>?n - 1\<bar>"] by simp_all
    have epc: "set ep \<subseteq> numberChars" "ep \<noteq> []" "isDigit (last ep)"
      using digits_numberChars[OF x(1)] x by (auto simp: ep_def numberChars_def list_all_iff)
    show ?thesis
    proof (cases "?k = 1")
      case True
      show ?thesis unfolding P(4)[OF D True, folded ep_def] using dc epc d(2) hd by (auto simp: last_append)
    next
      case False
      have "take 1 ?ds \<noteq> []" "hd (take 1 ?ds) = hd ?ds" using d(2) by (cases ?ds; simp)+
      then show ?thesis unfolding P(5)[OF D False, folded ep_def] using tk epc hd
        by (auto simp: last_append numberChars_def)
    qed
  qed
qed

lemma trim_id: "s \<noteq> [] \<Longrightarrow> \<not> isWhiteSpace (hd s) \<Longrightarrow> \<not> isWhiteSpace (last s) \<Longrightarrow> trim s = s"
proof -
  assume a: "s \<noteq> []" "\<not> isWhiteSpace (hd s)" "\<not> isWhiteSpace (last s)"
  then have 1: "dropWhile isWhiteSpace s = s" by (cases s) simp_all
  obtain a l where r: "rev s = a # l" using a(1) by (cases "rev s") simp_all
  then have "a = last s" using a(1) by (metis hd_rev list.sel(1))
  then have "dropWhile isWhiteSpace (a # l) = a # l" using a(3) by simp
  then have 2: "dropWhile isWhiteSpace (rev s) = rev s" by (simp only: r)
  show ?thesis by (simp add: trim_def 1 2)
qed

lemma digit_not_space: "isDigit c \<Longrightarrow> \<not> isWhiteSpace c"
  by (auto simp: isDigit_def isWhiteSpace_def)

lemma nonDecimalLiteral_None:
  assumes "set t \<subseteq> numberChars"
  shows "nonDecimalLiteral t = None"
proof -
  have "\<not> prefix [a, b] t" if "b \<notin> numberChars" for a b
    using that assms by (auto simp: prefix_def)
  then show ?thesis by (simp add: nonDecimalLiteral_def startsWith_def numberChars_def)
qed

lemma StringToNumber_numberToString:
  assumes "canonical n"
  shows "StringToNumber (numberToString n) = n"
proof (cases n)
  case NaN
  with assms show ?thesis by (simp add: canonical_def)
next
  case PosInfinity
  then show ?thesis
    by (simp add: StringToNumber_def trim_def isWhiteSpace_def nonDecimalLiteral_def
          strDecimalLiteral_def startsWith_def Let_def)
next
  case NegInfinity
  then show ?thesis
    by (simp add: StringToNumber_def trim_def isWhiteSpace_def nonDecimalLiteral_def
          strDecimalLiteral_def startsWith_def Let_def)
next
  case (Dec m e)
  show ?thesis
  proof (cases "m = 0")
    case True
    with Dec assms have "n = Dec 0 0" by (simp add: canonical_def)
    then show ?thesis
      by (simp add: StringToNumber_def trim_def isWhiteSpace_def nonDecimalLiteral_def
          strDecimalLiteral_def unsignedDecimal_def exponentPart_def isDigit_def numeral_of_def
          digitVal_def startsWith_def Let_def canon_zero)
  next
    case False
    with Dec assms have m10: "m mod 10 \<noteq> 0" by (simp add: canonical_def)
    let ?s = "\<bar>m\<bar>"
    let ?u = "positiveToString ?s e"
    have s: "0 < ?s" using False by simp
    note c = positiveToString_chars[OF s, of e]
    from positiveToString_parse[OF s, of e] obtain M E j where
      u: "unsignedDecimal ?u = Some (M, E)" and M: "M = ?s * 10 ^ j" and E: "E + int j = e"
      by blast
    have hdu: "hd ?u \<noteq> CHR ''-''" "hd ?u \<noteq> CHR ''+''" using c by (auto simp: isDigit_def)
    have noInf: "?u \<noteq> ''Infinity''" using c by (auto simp: numberChars_def)
    have sw: "\<not> startsWith ?u ''-''" "\<not> startsWith ?u ''+''"
      using hdu c by (cases ?u; simp add: startsWith_def)+
    show ?thesis
    proof (cases "m < 0")
      case True
      let ?t = "''-'' @ ?u"
      have nt: "numberToString n = ?t" using Dec True False by simp
      have ms: "\<not> isWhiteSpace CHR ''-''" by (simp add: isWhiteSpace_def)
      have tr: "trim ?t = ?t"
        using c ms by (intro trim_id) (simp_all add: digit_not_space)
      have nd: "nonDecimalLiteral ?t = None"
        using c by (intro nonDecimalLiteral_None) (auto simp: numberChars_def)
      have "- M = m * 10 ^ j" using True by (simp add: M)
      then have "canon (- M) E = canon m (E + int j)"
        using canon_power[of m j E] False by simp
      also have "\<dots> = Dec m e" using False m10 E by (simp add: canon_id)
      finally have cn: "canon (- M) E = Dec m e" .
      show ?thesis
        unfolding nt using noInf
        by (simp add: StringToNumber_def tr[simplified] nd[simplified] strDecimalLiteral_def
              startsWith_def u cn Dec Let_def)
    next
      case pos: False
      have nt: "numberToString n = ?u" using Dec pos False by simp
      have tr: "trim ?u = ?u"
        using c by (intro trim_id) (auto simp: digit_not_space)
      have nd: "nonDecimalLiteral ?u = None"
        using c by (intro nonDecimalLiteral_None) auto
      have "M = m * 10 ^ j" using pos by (simp add: M)
      then have "canon M E = canon m (E + int j)"
        using canon_power[of m j E] False by simp
      also have "\<dots> = Dec m e" using False m10 E by (simp add: canon_id)
      finally have cn: "canon M E = Dec m e" .
      have ne: "?u \<noteq> []" using c by simp
      show ?thesis
        unfolding nt using noInf sw ne
        by (simp add: StringToNumber_def tr nd strDecimalLiteral_def u cn Dec Let_def)
    qed
  qed
qed

section \<open>Normalizing a normalized value\<close>

lemma str_includes_set: "str_includes s t \<Longrightarrow> set t \<subseteq> set s"
  unfolding str_includes_sublist by (rule set_mono_sublist)

lemma no_dollar:
  "CHR ''$'' \<notin> set s \<Longrightarrow> \<not> str_includes s ''$function'' \<and> \<not> str_includes s ''$accumulator''"
  using str_includes_set[of s "''$function''"] str_includes_set[of s "''$accumulator''"] by auto

lemma nonDecimalLiteral_canonical: "nonDecimalLiteral t = Some n \<Longrightarrow> n = NaN \<or> canonical n"
proof -
  assume a: "nonDecimalLiteral t = Some n"
  have "n = NaN \<or> (\<exists>m. n = canon m 0)"
    using a unfolding nonDecimalLiteral_def by (auto split: if_splits)
  then show ?thesis using canon_canonical by auto
qed

lemma strDecimalLiteral_canonical: "strDecimalLiteral t = NaN \<or> canonical (strDecimalLiteral t)"
proof -
  let ?u = "if startsWith t ''-'' \<or> startsWith t ''+'' then tl t else t"
  show ?thesis
  proof (cases "?u = ''Infinity''")
    case True
    then show ?thesis by (simp add: strDecimalLiteral_def Let_def canonical_def)
  next
    case False
    show ?thesis
    proof (cases "unsignedDecimal ?u")
      case None
      with False show ?thesis by (simp add: strDecimalLiteral_def Let_def)
    next
      case (Some p)
      obtain m e where "p = (m, e)" by (cases p)
      with Some False show ?thesis
        using canon_canonical by (simp add: strDecimalLiteral_def Let_def)
    qed
  qed
qed

lemma StringToNumber_canonical: "StringToNumber s = NaN \<or> canonical (StringToNumber s)"
proof (cases "trim s = []")
  case True
  then show ?thesis by (simp add: StringToNumber_def canonical_def)
next
  case False
  show ?thesis
  proof (cases "nonDecimalLiteral (trim s)")
    case None
    with False show ?thesis
      using strDecimalLiteral_canonical[of "trim s"] by (simp add: StringToNumber_def)
  next
    case (Some n)
    with False show ?thesis
      using nonDecimalLiteral_canonical[OF Some] by (simp add: StringToNumber_def)
  qed
qed

text \<open>A text that begins with a character no number begins with is not a number.\<close>

lemma dropWhile_snoc: "\<not> P c \<Longrightarrow> dropWhile P (xs @ [c]) \<noteq> [] \<and> last (dropWhile P (xs @ [c])) = c"
  by (induction xs) simp_all

lemma trim_Cons: "\<not> isWhiteSpace c \<Longrightarrow> \<exists>s'. trim (c # s) = c # s'"
proof -
  assume c: "\<not> isWhiteSpace c"
  let ?r = "dropWhile isWhiteSpace (rev s @ [c])"
  have "?r \<noteq> [] \<and> last ?r = c" using c by (rule dropWhile_snoc)
  then have "rev ?r \<noteq> [] \<and> hd (rev ?r) = c" by (simp add: hd_rev)
  then obtain s' where "rev ?r = c # s'" by (cases "rev ?r") auto
  then show ?thesis using c by (simp add: trim_def)
qed

lemma StringToNumber_NaN:
  assumes "\<not> isWhiteSpace c" "c \<notin> set ''0123456789+-.I''"
  shows "StringToNumber (c # s) = NaN"
proof -
  from trim_Cons[OF assms(1)] obtain s' where t: "trim (c # s) = c # s'" by blast
  have nd: "\<not> isDigit c" using assms(2) by (auto simp: isDigit_def)
  have c: "c \<noteq> CHR ''0''" "c \<noteq> CHR ''-''" "c \<noteq> CHR ''+''" "c \<noteq> CHR ''.''" "c \<noteq> CHR ''I''"
    using assms(2) by auto
  have 1: "nonDecimalLiteral (c # s') = None"
    using c(1) by (simp add: nonDecimalLiteral_def startsWith_def)
  have 2: "unsignedDecimal (c # s') = None"
    using nd c(4) by (simp add: unsignedDecimal_def startsWith_def Let_def)
  have 3: "strDecimalLiteral (c # s') = NaN"
    using c(2,3,5) by (simp add: strDecimalLiteral_def startsWith_def Let_def 2)
  show ?thesis by (simp add: StringToNumber_def t 1 3)
qed

lemma ISO_hd: "isISO8601Date s \<Longrightarrow> s \<noteq> [] \<and> isDigit (hd s)"
proof -
  assume "isISO8601Date s"
  then have a: "10 \<le> length s" "list_all isDigit (take 4 s)"
    unfolding isISO8601Date_def by blast+
  then obtain c r where "s = c # r" by (cases s) auto
  with a show ?thesis by (simp add: take_Cons')
qed

lemma not_ISO_hd: "\<not> isDigit c \<Longrightarrow> \<not> isISO8601Date (c # s)"
  using ISO_hd[of "c # s"] by auto

lemma lower_hd: "lowerChar c = c \<Longrightarrow> c \<noteq> CHR ''t'' \<Longrightarrow> c \<noteq> CHR ''f'' \<Longrightarrow>
    toLowerCase (c # s) \<noteq> ''true'' \<and> toLowerCase (c # s) \<noteq> ''false''"
  by (auto simp: toLowerCase_def)

lemma numberToString_chars:
  assumes "canonical n"
  shows "set (numberToString n) \<subseteq> numberChars \<union> set ''Infinity''"
proof (cases n)
  case (Dec m e)
  have "set (positiveToString \<bar>m\<bar> e) \<subseteq> numberChars" if "m \<noteq> 0"
    using positiveToString_chars[of "\<bar>m\<bar>" e] that by simp
  then show ?thesis using Dec by (auto simp: numberChars_def)
qed (use assms in \<open>auto simp: canonical_def numberChars_def\<close>)

lemma lowerChar_numberChars:
  "\<forall>c \<in> set ''0123456789.e+-Infinity''. lowerChar c \<noteq> CHR ''r'' \<and> lowerChar c \<noteq> CHR ''a''"
  by (simp add: lowerChar_def char_of_def)

lemma number_text_facts:
  assumes "canonical n"
  shows "\<not> str_includes (numberToString n) ''$function''"
    and "\<not> str_includes (numberToString n) ''$accumulator''"
    and "toLowerCase (numberToString n) \<noteq> ''true''"
    and "toLowerCase (numberToString n) \<noteq> ''false''"
proof -
  note c = numberToString_chars[OF assms]
  have "CHR ''$'' \<notin> set (numberToString n)" using c by (auto simp: numberChars_def)
  from no_dollar[OF this]
  show "\<not> str_includes (numberToString n) ''$function''"
    and "\<not> str_includes (numberToString n) ''$accumulator''" by simp_all
  have l: "lowerChar c \<noteq> CHR ''r'' \<and> lowerChar c \<noteq> CHR ''a''" if "c \<in> set (numberToString n)" for c
    using lowerChar_numberChars c that by (auto simp: numberChars_def)
  show "toLowerCase (numberToString n) \<noteq> ''true''"
  proof
    assume "toLowerCase (numberToString n) = ''true''"
    then have "CHR ''r'' \<in> set (toLowerCase (numberToString n))" by simp
    then obtain c where "c \<in> set (numberToString n)" "lowerChar c = CHR ''r''"
      by (auto simp: toLowerCase_def)
    then show False using l by blast
  qed
  show "toLowerCase (numberToString n) \<noteq> ''false''"
  proof
    assume "toLowerCase (numberToString n) = ''false''"
    then have "CHR ''a'' \<in> set (toLowerCase (numberToString n))" by simp
    then obtain c where "c \<in> set (numberToString n)" "lowerChar c = CHR ''a''"
      by (auto simp: toLowerCase_def)
    then show False using l by blast
  qed
qed

lemma normalize_number:
  assumes "canonical n"
  shows "normalize (JNum n) = Some (Inr (JNum n))"
proof -
  have n: "n \<noteq> NaN" using assms by (auto simp: canonical_def)
  show ?thesis
    using number_text_facts[OF assms] StringToNumber_numberToString[OF assms] n
    by (subst normalize_Single) (simp add: value_defs)
qed

lemma normalize_bool: "normalize (JBool b) = Some (Inr (JBool b))"
  by (cases b)
     (simp_all add: normalize_Single value_defs toLowerCase_def lowerChar_def)

lemma JSON_parse_object:
  assumes "JSON_parse (CHR ''{'' # r) = Some v"
  shows "\<exists>ps. v = JObj ps"
proof -
  have w: "skipWs (CHR ''{'' # r) = CHR ''{'' # r"
    by (simp add: skipWs_def isJSONWhitespace_def)
  have "\<exists>ps. fst p = JObj ps" if "parseValue (Suc (length (CHR ''{'' # r))) (CHR ''{'' # r) = Some p" for p
    using that by (auto simp: w split: if_splits)
  then show ?thesis
    using assms by (auto simp: JSON_parse_def split: option.splits if_splits)
qed

lemma bind_pair_result:
  assumes "Option.bind A (\<lambda>r. case r of Inl e \<Rightarrow> Some (Inl e)
              | Inr y \<Rightarrow> Option.bind B (\<lambda>rs. case rs of Inl e \<Rightarrow> Some (Inl e)
                                              | Inr ys \<Rightarrow> Some (Inr (F y ys)))) = Some (Inr v)"
  shows "\<exists>y ys. v = F y ys"
proof (cases A)
  case None
  with assms show ?thesis by simp
next
  case (Some a)
  show ?thesis
  proof (cases a)
    case (Inl e)
    with Some assms show ?thesis by simp
  next
    case (Inr y)
    show ?thesis
    proof (cases B)
      case None
      with Some Inr assms show ?thesis by simp
    next
      case b: (Some b)
      show ?thesis
      proof (cases b)
        case (Inl e)
        with Some Inr b assms show ?thesis by simp
      next
        case ys: (Inr ys)
        with Some Inr b assms show ?thesis by auto
      qed
    qed
  qed
qed

lemma Entries_result:
  assumes "normalizeWork (Entries ps) = Some (Inr v)"
  shows "\<exists>l. v = JObj l"
proof (cases ps)
  case Nil
  with assms show ?thesis by (subst (asm) normalizeWork.simps) auto
next
  case (Cons p rest)
  obtain k x where p: "p = (k, x)" by (cases p)
  from assms have "Option.bind
       (if k = ''dateString'' \<or> k = ''$regex'' then Some (Inr (JStr (toString x)))
        else normalizeWork (Single x))
       (\<lambda>r. case r of Inl e \<Rightarrow> Some (Inl e)
          | Inr y \<Rightarrow> Option.bind (normalizeWork (Entries rest))
                     (\<lambda>rs. case rs of Inl e \<Rightarrow> Some (Inl e)
                        | Inr ys \<Rightarrow> Some (Inr ((\<lambda>y ys. JObj ((k, y) # (case ys of JObj l \<Rightarrow> l | _ \<Rightarrow> []))) y ys)))) =
       Some (Inr v)"
    unfolding Cons p by (subst (asm) normalizeWork.simps) simp
  from bind_pair_result[OF this] show ?thesis by blast
qed

lemma JSON_stringify_object: "\<exists>r. JSON_stringify (JObj ps) = Some (CHR ''{'' # r)"
  by simp

lemma normalize_object_result:
  assumes "normalize (JObj ps) = Some (Inr v)"
  shows "\<exists>l. v = JObj l"
proof -
  obtain r where s: "JSON_stringify (JObj ps) = Some (CHR ''{'' # r)"
    using JSON_stringify_object by blast
  let ?tmp = "CHR ''{'' # r"
  have t: "textualForm (JObj ps) = Some ?tmp" using s by (simp add: value_defs)
  have l: "toLowerCase ?tmp \<noteq> ''true''" "toLowerCase ?tmp \<noteq> ''false''"
    using lower_hd[of "CHR ''{''" r] by (simp_all add: lowerChar_def)
  have n: "StringToNumber ?tmp = NaN"
    by (rule StringToNumber_NaN) (simp_all add: isWhiteSpace_def)
  have i: "\<not> isISO8601Date ?tmp" by (rule not_ISO_hd) (simp add: isDigit_def)
  have k: "\<not> isString (JObj ps)" "\<not> isArray (JObj ps)" "\<not> isNumber (JObj ps)"
    by (simp_all add: value_defs)
  have g: "\<not> (str_includes ?tmp ''$function'' \<or> str_includes ?tmp ''$accumulator'')"
  proof
    assume "str_includes ?tmp ''$function'' \<or> str_includes ?tmp ''$accumulator''"
    with assms show False
      by (subst (asm) normalize_Single) (simp add: t del: str_includes.simps)
  qed
  show ?thesis
  proof (cases "isJSON (JObj ps)")
    case False
    from assms have "v = JObj ps"
      using g False by (subst (asm) normalize_Single) (simp add: t l n i k del: str_includes.simps)
    then show ?thesis by blast
  next
    case True
    from assms have
      "(case JSON_parse ?tmp of
                None \<Rightarrow> Some (Inl SyntaxError)
              | Some obj \<Rightarrow>
                  (case obj of
                     JObj ps \<Rightarrow> normalizeWork (Entries ps)
                   | JArr xs \<Rightarrow> normalizeWork (Elements xs)
                   | JNull \<Rightarrow> Some (Inl TypeError)
                   | JUndefined \<Rightarrow> Some (Inl TypeError)
                   | JStr s \<Rightarrow> if s = [] then Some (Inr obj) else Some (Inl TypeError)
                   | _ \<Rightarrow> Some (Inr obj))) = Some (Inr v)"
      using g True by (subst (asm) normalize_Single) (simp add: t l n i k del: str_includes.simps)
    then obtain obj where p: "JSON_parse ?tmp = Some obj"
      and q: "(case obj of
                     JObj ps \<Rightarrow> normalizeWork (Entries ps)
                   | JArr xs \<Rightarrow> normalizeWork (Elements xs)
                   | JNull \<Rightarrow> Some (Inl TypeError)
                   | JUndefined \<Rightarrow> Some (Inl TypeError)
                   | JStr s \<Rightarrow> if s = [] then Some (Inr obj) else Some (Inl TypeError)
                   | _ \<Rightarrow> Some (Inr obj)) = Some (Inr v)"
      by (auto split: option.splits)
    from JSON_parse_object[OF p] obtain ps' where "obj = JObj ps'" by blast
    with q have "normalizeWork (Entries ps') = Some (Inr v)" by simp
    then show ?thesis by (rule Entries_result)
  qed
qed

text \<open>The terminal types on which a result is a fixed point: boolean, number and string.\<close>

definition terminal :: "jsvalue \<Rightarrow> bool" where
  "terminal v = (case v of JBool b \<Rightarrow> True | JNum n \<Rightarrow> True | JStr s \<Rightarrow> True | _ \<Rightarrow> False)"

text \<open>
  Claim C5, as the code has it. A string that \<open>normalize\<close> turns into a boolean, a number
  or a string has reached a fixed point: \<open>normalize\<close> of that value is the value again.
  A string on which \<open>normalize\<close> returns at all contains neither \<open>$function\<close> nor
  \<open>$accumulator\<close>, because of the guard.
\<close>

theorem normalize_idempotent:
  assumes "normalize (JStr s) = Some (Inr v)" and "terminal v"
  shows "normalize v = Some (Inr v)"
proof -
  have t: "textualForm (JStr s) = Some s" by (simp add: value_defs)
  have k: "isString (JStr s)" "\<not> isArray (JStr s)" "toString (JStr s) = s"
    by (simp_all add: value_defs)
  have g: "\<not> (str_includes s ''$function'' \<or> str_includes s ''$accumulator'')"
  proof
    assume "str_includes s ''$function'' \<or> str_includes s ''$accumulator''"
    with assms(1) show False by (subst (asm) normalize_Single) (simp add: t)
  qed
  show ?thesis
  proof (cases "startsWith s ''{'' \<and> endsWith s ''}''")
    case True
    then obtain r where s: "s = CHR ''{'' # r" by (cases s) (auto simp: startsWith_def)
    from assms(1) have "(case JSON_parse s of None \<Rightarrow> Some (Inl SyntaxError)
                         | Some parsed \<Rightarrow> normalize parsed) = Some (Inr v)"
      using g True by (subst (asm) normalize_Single) (simp add: t k)
    then obtain parsed where
      p: "JSON_parse s = Some parsed" and n: "normalize parsed = Some (Inr v)"
      by (auto split: option.splits)
    from JSON_parse_object[OF p[unfolded s]] obtain ps where "parsed = JObj ps" by blast
    with n normalize_object_result obtain l where "v = JObj l" by blast
    with assms(2) show ?thesis by (simp add: terminal_def)
  next
    case w: False
    consider (T) "toLowerCase s = ''true''"
      | (F) "toLowerCase s \<noteq> ''true''" "toLowerCase s = ''false''"
      | (N) "toLowerCase s \<noteq> ''true''" "toLowerCase s \<noteq> ''false''" "StringToNumber s \<noteq> NaN"
      | (D) "toLowerCase s \<noteq> ''true''" "toLowerCase s \<noteq> ''false''" "StringToNumber s = NaN"
            "isISO8601Date s"
      | (S) "toLowerCase s \<noteq> ''true''" "toLowerCase s \<noteq> ''false''" "StringToNumber s = NaN"
            "\<not> isISO8601Date s"
      by blast
    then show ?thesis
    proof cases
      case T
      from assms(1) have "v = JBool True"
        using g w T by (subst (asm) normalize_Single) (simp add: t k)
      then show ?thesis by (simp add: normalize_bool)
    next
      case F
      from assms(1) have "v = JBool False"
        using g w F by (subst (asm) normalize_Single) (simp add: t k)
      then show ?thesis by (simp add: normalize_bool)
    next
      case N
      from assms(1) have v: "v = JNum (StringToNumber s)"
        using g w N by (subst (asm) normalize_Single) (simp add: t k)
      have "canonical (StringToNumber s)" using StringToNumber_canonical[of s] N(3) by simp
      then show ?thesis unfolding v by (rule normalize_number)
    next
      case D
      from assms(1) have "v = JDate s"
        using g w D by (subst (asm) normalize_Single) (simp add: t k)
      with assms(2) show ?thesis by (simp add: terminal_def)
    next
      case S
      from assms(1) have v: "v = JStr s"
        using g w S by (subst (asm) normalize_Single) (simp add: t k)
      show ?thesis unfolding v using assms(1) v by simp
    qed
  qed
qed

lemma normalize_42: "normalize (JStr ''42'') = Some (Inr (JNum (Dec 42 0)))"
  by (simp add: normalize_Single value_defs string_defs number_defs date_defs toLowerCase_def
        lowerChar_def canon.simps Let_def)

lemma normalize_true: "normalize (JStr ''true'') = Some (Inr (JBool True))"
  by (simp add: normalize_Single value_defs string_defs toLowerCase_def lowerChar_def char_of_def)

theorem normalize_idempotent_witness:
  "normalize (JStr ''42'') = Some (Inr (JNum (Dec 42 0))) \<and> terminal (JNum (Dec 42 0)) \<and>
   normalize (JNum (Dec 42 0)) = Some (Inr (JNum (Dec 42 0))) \<and>
   normalize (JStr ''true'') = Some (Inr (JBool True)) \<and> terminal (JBool True) \<and>
   normalize (JBool True) = Some (Inr (JBool True)) \<and>
   normalize (JStr ''active'') = Some (Inr (JStr ''active'')) \<and> terminal (JStr ''active'')"
proof -
  have t: "terminal (JNum (Dec 42 0))" "terminal (JBool True)" "terminal (JStr ''active'')"
    by (simp_all add: terminal_def)
  from normalize_idempotent[OF normalize_42 t(1)] normalize_idempotent[OF normalize_true t(2)]
    normalize_idempotent[OF normalize_active t(3)]
  show ?thesis using normalize_42 normalize_true t by simp
qed

lemma normalize_instant:
  "normalize (JStr ''2023-01-01T00:00:00Z'') = Some (Inr (JDate ''2023-01-01T00:00:00Z''))"
  by (simp add: normalize_Single value_defs string_defs number_defs date_defs toLowerCase_def
        lowerChar_def Let_def)

definition instantText :: string where
  "instantText = CHR 0x22 # ''2023-01-01T00:00:00Z'' @ [CHR 0x22]"

lemma JSON_instant:
  "JSON_stringify (JDate ''2023-01-01T00:00:00Z'') = Some instantText"
  "JSON_parse instantText = Some (JStr ''2023-01-01T00:00:00Z'')"
  by (simp_all add: instantText_def quoteJSON_def escapeChar_def JSON_parse_def skipWs_def isJSONWhitespace_def)

lemma normalize_Date_instant:
  "normalize (JDate ''2023-01-01T00:00:00Z'') = Some (Inl TypeError)"
proof -
  have t: "textualForm (JDate ''2023-01-01T00:00:00Z'') = Some instantText"
    using JSON_instant(1) by (simp add: value_defs)
  have g: "\<not> str_includes instantText ''$function''" "\<not> str_includes instantText ''$accumulator''"
    by (simp_all add: instantText_def)
  have l: "toLowerCase instantText \<noteq> ''true''" "toLowerCase instantText \<noteq> ''false''"
    by (simp_all add: toLowerCase_def instantText_def)
  have n: "StringToNumber instantText = NaN"
    unfolding instantText_def by (rule StringToNumber_NaN) (simp_all add: isWhiteSpace_def)
  have i: "\<not> isISO8601Date instantText" unfolding instantText_def by (rule not_ISO_hd) (simp add: isDigit_def)
  have k: "\<not> isString (JDate ''2023-01-01T00:00:00Z'')" "\<not> isArray (JDate ''2023-01-01T00:00:00Z'')"
    "\<not> isNumber (JDate ''2023-01-01T00:00:00Z'')"
    by (simp_all add: value_defs)
  have j: "isJSON (JDate ''2023-01-01T00:00:00Z'')"
    unfolding isJSON_def JSON_instant(1) using JSON_instant(2) by simp
  show ?thesis
    by (subst normalize_Single) (simp add: t g l n i k j JSON_instant(2) del: str_includes.simps)
qed

text \<open>
  Claim C5 as stated fails on a date. \<open>normalize\<close> turns the text of an instant into a
  date, and, applied to that date, does not return it: the date is structurally valid,
  its JSON text parses to a string, and the assignment to an entry of a string raises
  a type error.
\<close>

theorem normalize_idempotent_counterexample:
  "normalize (JStr ''2023-01-01T00:00:00Z'') = Some (Inr (JDate ''2023-01-01T00:00:00Z'')) \<and>
   normalize (JDate ''2023-01-01T00:00:00Z'') \<noteq> Some (Inr (JDate ''2023-01-01T00:00:00Z'')) \<and>
   normalize (JDate ''2023-01-01T00:00:00Z'') = Some (Inl TypeError)"
  by (simp add: normalize_instant normalize_Date_instant)

section \<open>The normalizer always returns\<close>

text \<open>
  Every call of \<open>normalize\<close> returns, with a value or with an error. The calls it makes on
  itself are on values of a smaller weight. The weight of a text counts its characters
  other than those of numbers and of hexadecimal digits: a number may print longer than
  it was written, and an escaped character may be written longer than it prints.
\<close>

definition heavy :: "char \<Rightarrow> bool" where
  "heavy c = (c \<notin> set ''0123456789+-.eEabcdfABCDF'')"

definition tw :: "string \<Rightarrow> nat" where
  "tw s = length (filter heavy s)"

lemma tw_Nil [simp]: "tw [] = 0"
  by (simp add: tw_def)

lemma tw_Cons [simp]: "tw (c # s) = (if heavy c then 1 else 0) + tw s"
  by (simp add: tw_def)

lemma tw_append [simp]: "tw (a @ b) = tw a + tw b"
  by (simp add: tw_def)

lemma tw_light: "\<forall>c \<in> set s. \<not> heavy c \<Longrightarrow> tw s = 0"
  by (induction s) auto

lemma tw_dropWhile: "tw (dropWhile P s) \<le> tw s"
  by (induction s) auto

lemma tw_skipWs: "tw (skipWs s) \<le> tw s"
  unfolding skipWs_def by (rule tw_dropWhile)

lemma tw_drop: "tw (drop n s) \<le> tw s"
proof -
  have "tw s = tw (take n s) + tw (drop n s)" by (metis tw_append append_take_drop_id)
  then show ?thesis by simp
qed

lemma startsWith_Cons: "startsWith s [c] \<Longrightarrow> s = c # tl s"
  by (cases s) (auto simp: startsWith_def)

lemma tw_startsWith: "startsWith s [c] \<Longrightarrow> heavy c \<Longrightarrow> tw s = 1 + tw (tl s)"
  by (cases s) (auto simp: startsWith_def)

lemma heavy_chars:
  "heavy CHR 0x22" "heavy CHR 0x5C" "heavy CHR '',''" "heavy CHR '':''" "heavy CHR ''[''" "heavy CHR '']''"
  "heavy CHR ''{''" "heavy CHR ''}''" "heavy CHR ''u''"
  by (simp_all add: heavy_def)

lemma tw_words:
  "tw ''true'' = 3" "tw ''false'' = 2" "tw ''null'' = 4" "tw ''undefined'' = 4"
  "tw ''NaN'' = 2" "tw ''Infinity'' = 7" "tw ''-Infinity'' = 7"
  by (simp_all add: heavy_def)

lemma hexDigit_light: "\<not> heavy (hexDigit n)"
proof -
  have "hexDigit n \<in> set ''0123456789abcdef''"
    unfolding hexDigit_def by (rule nth_mem) simp
  then show ?thesis by (auto simp: heavy_def)
qed

lemma light_chars:
  "\<not> heavy CHR ''0''" "\<not> heavy CHR ''b''" "\<not> heavy CHR ''f''" "\<not> heavy CHR ''e''"
  "heavy CHR ''n''" "heavy CHR ''r''" "heavy CHR ''t''" "heavy CHR ''/''"
  by (simp_all add: heavy_def)

lemma tw_escapeChar_le: "tw (escapeChar c) \<le> 2"
  by (simp add: escapeChar_def Let_def heavy_chars light_chars hexDigit_light)

lemma tw_escapeChar_ge: "tw [c] \<le> tw (escapeChar c)"
  by (simp add: escapeChar_def Let_def heavy_chars)

lemma tw_escape: "tw s \<le> tw (concat (map escapeChar s))"
proof (induction s)
  case Nil
  show ?case by simp
next
  case (Cons c s)
  have "tw (c # s) = tw [c] + tw s" by simp
  also have "\<dots> \<le> tw (escapeChar c) + tw (concat (map escapeChar s))"
    using Cons tw_escapeChar_ge[of c] by linarith
  finally show ?case by simp
qed

lemma of_char_eq_iff: "((of_char c :: nat) = of_char d) = (c = d)"
  by (metis char_of_char)

lemma escapeChar_plain:
  assumes "\<not> (of_char c :: int) < 32" "c \<noteq> CHR 0x22" "c \<noteq> CHR 0x5C"
  shows "escapeChar c = [c]"
proof -
  have "int (of_char c) = of_char c" by (rule of_nat_of_char)
  with assms(1) have n: "\<not> (of_char c :: nat) < 32" by linarith
  have q: "(of_char c :: nat) \<noteq> 34"
    using assms(2) of_char_eq_iff[of c "CHR 0x22"] by simp
  have b: "(of_char c :: nat) \<noteq> 92"
    using assms(3) of_char_eq_iff[of c "CHR 0x5C"] by simp
  show ?thesis using n q b by (simp add: escapeChar_def Let_def)
qed

abbreviation esc :: "string \<Rightarrow> string" where
  "esc s \<equiv> concat (map escapeChar s)"

lemma escapeChar_controls:
  "escapeChar (CHR 0x08) = [CHR 0x5C, CHR ''b'']" "escapeChar (CHR 0x0C) = [CHR 0x5C, CHR ''f'']"
  by (simp_all add: escapeChar_def)

lemma parseStringBody_step:
  assumes "parseStringBody (c # cs) acc = Some (k, r)" "c \<noteq> CHR 0x22"
  shows "\<exists>x r1. parseStringBody r1 (acc @ [x]) = Some (k, r) \<and> length r1 \<le> length cs \<and>
           tw (escapeChar x) + tw r1 \<le> tw (c # cs)"
proof (cases "c = CHR 0x5C")
  case False
  with assms have n: "\<not> (of_char c :: int) < 32" and p: "parseStringBody cs (acc @ [c]) = Some (k, r)"
    by (auto split: if_splits)
  have "escapeChar c = [c]" using n assms(2) False by (rule escapeChar_plain)
  with p show ?thesis by (intro exI[of _ c] exI[of _ cs]) simp
next
  case True
  with assms obtain e r0 where cs: "cs = e # r0" by (cases cs) auto
  note le = tw_escapeChar_le
  consider (two) "e = CHR 0x22 \<or> e = CHR 0x5C \<or> e = CHR ''/''" "parseStringBody r0 (acc @ [e]) = Some (k, r)"
    | (b) "e = CHR ''b''" "parseStringBody r0 (acc @ [CHR 0x08]) = Some (k, r)"
    | (f) "e = CHR ''f''" "parseStringBody r0 (acc @ [CHR 0x0C]) = Some (k, r)"
    | (n) "e = CHR ''n''" "parseStringBody r0 (acc @ [CHR 0x0A]) = Some (k, r)"
    | (r) "e = CHR ''r''" "parseStringBody r0 (acc @ [CHR 0x0D]) = Some (k, r)"
    | (t) "e = CHR ''t''" "parseStringBody r0 (acc @ [CHR 0x09]) = Some (k, r)"
    | (u) h1 h2 h3 h4 r' where "e = CHR ''u''" "r0 = h1 # h2 # h3 # h4 # r'"
        "parseStringBody r' (acc @ [char_of (numeral_of 16 [h1, h2, h3, h4])]) = Some (k, r)"
    using assms(1) unfolding True cs
    by (simp split: if_splits list.splits)
  then show ?thesis
  proof cases
    case two
    then have "heavy e" by (auto simp: heavy_chars light_chars)
    with two(2) le[of e] show ?thesis
      unfolding cs True by (intro exI[of _ e] exI[of _ r0]) (simp add: heavy_chars)
  next
    case b
    with b(2) show ?thesis
      unfolding cs True by (intro exI[of _ "CHR 0x08"] exI[of _ r0]) (simp add: heavy_chars light_chars escapeChar_controls)
  next
    case f
    with f(2) show ?thesis
      unfolding cs True by (intro exI[of _ "CHR 0x0C"] exI[of _ r0]) (simp add: heavy_chars light_chars escapeChar_controls)
  next
    case n
    with n(2) le[of "CHR 0x0A"] show ?thesis
      unfolding cs True by (intro exI[of _ "CHR 0x0A"] exI[of _ r0]) (simp add: heavy_chars light_chars)
  next
    case r
    with r(2) le[of "CHR 0x0D"] show ?thesis
      unfolding cs True by (intro exI[of _ "CHR 0x0D"] exI[of _ r0]) (simp add: heavy_chars light_chars)
  next
    case t
    with t(2) le[of "CHR 0x09"] show ?thesis
      unfolding cs True by (intro exI[of _ "CHR 0x09"] exI[of _ r0]) (simp add: heavy_chars light_chars)
  next
    case u
    with u(3) le[of "char_of (numeral_of 16 [h1, h2, h3, h4])"] show ?thesis
      unfolding cs True u(2)
      by (intro exI[of _ "char_of (numeral_of 16 [h1, h2, h3, h4])"] exI[of _ r']) (simp add: heavy_chars)
  qed
qed

lemma parseStringBody_weight:
  "parseStringBody s acc = Some (k, r) \<Longrightarrow> tw (esc k) + 1 + tw r \<le> tw (esc acc) + tw s"
proof (induction "length s" arbitrary: s acc rule: less_induct)
  case less
  show ?case
  proof (cases s)
    case Nil
    with less.prems show ?thesis by simp
  next
    case (Cons c cs)
    show ?thesis
    proof (cases "c = CHR 0x22")
      case True
      with less.prems show ?thesis unfolding Cons by (simp add: heavy_chars)
    next
      case False
      from parseStringBody_step[OF less.prems[unfolded Cons] False] obtain x r1 where
        p: "parseStringBody r1 (acc @ [x]) = Some (k, r)" and l: "length r1 \<le> length cs"
        and w: "tw (escapeChar x) + tw r1 \<le> tw (c # cs)" by blast
      have "length r1 < length s" using l Cons by simp
      from less.hyps[OF this p] w show ?thesis unfolding Cons by simp
    qed
  qed
qed

lemma canon_Dec: "\<exists>m' e'. canon m e = Dec m' e'"
  by (induction m e rule: canon.induct) (subst canon.simps, auto)

lemma isJSONNumber_Dec:
  assumes "isJSONNumber tok"
  shows "\<exists>m e. strDecimalLiteral tok = Dec m e"
proof -
  define u where "u = (if startsWith tok ''-'' then tl tok else tok)"
  define r1 where "r1 = dropWhile isDigit u"
  define fp where "fp = (if startsWith r1 ''.'' then takeWhile isDigit (tl r1) else [])"
  define r2 where "r2 = (if startsWith r1 ''.'' then dropWhile isDigit (tl r1) else r1)"
  from assms have ip: "takeWhile isDigit u \<noteq> []" and ex: "exponentPart r2 \<noteq> None"
    unfolding isJSONNumber_def Let_def u_def r1_def r2_def by simp_all
  from ip obtain d u' where ud: "u = d # u'" "isDigit d" by (cases u) (auto split: if_splits)
  have np: "\<not> startsWith tok ''+''"
  proof
    assume "startsWith tok ''+''"
    then obtain t where "tok = CHR ''+'' # t" by (cases tok) (auto simp: startsWith_def)
    with ud show False by (auto simp: u_def startsWith_def isDigit_def)
  qed
  have ni: "u \<noteq> ''Infinity''" using ud by (auto simp: isDigit_def)
  from ex obtain x where x: "exponentPart r2 = Some x" by blast
  have "unsignedDecimal u = Some (numeral_of 10 (takeWhile isDigit u @ fp), x - int (length fp))"
    using ip x unfolding unsignedDecimal_def Let_def r1_def[symmetric] fp_def[symmetric] r2_def[symmetric]
    by simp
  then have "strDecimalLiteral tok =
      canon (if startsWith tok ''-'' then - numeral_of 10 (takeWhile isDigit u @ fp)
             else numeral_of 10 (takeWhile isDigit u @ fp)) (x - int (length fp))"
    using np ni unfolding strDecimalLiteral_def Let_def u_def[symmetric]
    by (simp add: u_def)
  then show ?thesis using canon_Dec by simp
qed

lemma numberChars_light: "c \<in> numberChars \<Longrightarrow> \<not> heavy c"
  by (auto simp: numberChars_def heavy_def)

lemma tw_number: "tw (numberToString (Dec m e)) = 0"
proof (cases "m = 0")
  case True
  then show ?thesis by (simp add: light_chars)
next
  case False
  then have "set (positiveToString \<bar>m\<bar> e) \<subseteq> numberChars"
    using positiveToString_chars[of "\<bar>m\<bar>" e] by simp
  then have p: "tw (positiveToString \<bar>m\<bar> e) = 0"
    by (intro tw_light) (auto dest: numberChars_light)
  have "\<not> heavy CHR ''-''" by (simp add: heavy_def)
  then show ?thesis using False p by (cases "m < 0") (simp_all add: abs_if)
qed

text \<open>The weight of a value: at least that of its JSON text and of its textual form, and at
  most that of a text it was parsed from.\<close>

primrec wt :: "jsvalue \<Rightarrow> nat" where
  "wt JUndefined = 4"
| "wt JNull = 4"
| "wt (JBool b) = (if b then 3 else 2)"
| "wt (JNum n) = (case n of Dec m e \<Rightarrow> 0 | _ \<Rightarrow> 7)"
| "wt (JStr s) = 2 + tw (concat (map escapeChar s))"
| "wt (JDate d) = 2 + tw (concat (map escapeChar d))"
| "wt (JArr xs) = max 2 (1 + sum_list (map Suc (map wt xs)))"
| "wt (JObj ps) =
     max 2 (1 + sum_list (map (\<lambda>(k, w). 4 + tw (concat (map escapeChar k)) + w)
                              (map (map_prod id wt) ps)))"

definition elementsWeight :: "jsvalue list \<Rightarrow> nat" where
  "elementsWeight xs = sum_list (map (\<lambda>x. Suc (wt x)) xs)"

definition entriesWeight :: "(string \<times> jsvalue) list \<Rightarrow> nat" where
  "entriesWeight ps = sum_list (map (\<lambda>(k, x). 4 + tw (concat (map escapeChar k)) + wt x) ps)"

lemma elementsWeight_simps [simp]:
  "elementsWeight [] = 0" "elementsWeight (x # xs) = Suc (wt x) + elementsWeight xs"
  "elementsWeight (xs @ ys) = elementsWeight xs + elementsWeight ys"
  by (simp_all add: elementsWeight_def)

lemma entriesWeight_simps [simp]:
  "entriesWeight [] = 0" "entriesWeight ((k, x) # ps) = 4 + tw (esc k) + wt x + entriesWeight ps"
  "entriesWeight (ps @ qs) = entriesWeight ps + entriesWeight qs"
  by (simp_all add: entriesWeight_def)

lemma wt_JArr: "wt (JArr xs) = max 2 (1 + elementsWeight xs)"
  by (simp add: elementsWeight_def comp_def)

lemma wt_JObj: "wt (JObj ps) = max 2 (1 + entriesWeight ps)"
proof -
  have e: "map (\<lambda>(k, w). 4 + tw (esc k) + w) (map (map_prod id wt) ps) =
        map (\<lambda>(k, x). 4 + tw (esc k) + wt x) ps"
    by (induction ps) auto
  show ?thesis unfolding wt.simps entriesWeight_def e ..
qed

declare wt.simps(7,8) [simp del]

definition elementTexts :: "jsvalue list \<Rightarrow> string list" where
  "elementTexts xs = map (\<lambda>r. case r of None \<Rightarrow> ''null'' | Some t \<Rightarrow> t) (map JSON_stringify xs)"

definition entryTexts :: "(string \<times> jsvalue) list \<Rightarrow> string list" where
  "entryTexts ps = concat (map (\<lambda>(k, r). case r of None \<Rightarrow> [] | Some t \<Rightarrow> [quoteJSON k @ '':'' @ t])
                          (map (map_prod id JSON_stringify) ps))"

lemma elementTexts_simps:
  "elementTexts [] = []"
  "elementTexts (x # xs) = (case JSON_stringify x of None \<Rightarrow> ''null'' | Some t \<Rightarrow> t) # elementTexts xs"
  by (simp_all add: elementTexts_def)

lemma entryTexts_simps:
  "entryTexts [] = []"
  "entryTexts ((k, x) # ps) =
     (case JSON_stringify x of None \<Rightarrow> [] | Some t \<Rightarrow> [quoteJSON k @ '':'' @ t]) @ entryTexts ps"
  by (simp add: entryTexts_def, cases "JSON_stringify x", simp_all add: entryTexts_def)

lemma stringify_JArr: "JSON_stringify (JArr xs) = Some (''['' @ join '','' (elementTexts xs) @ '']'')"
  by (simp add: elementTexts_def)

lemma stringify_JObj: "JSON_stringify (JObj ps) = Some (''{'' @ join '','' (entryTexts ps) @ ''}'')"
  by (simp add: entryTexts_def)

definition textsWeight :: "string list \<Rightarrow> nat" where
  "textsWeight ts = sum_list (map (\<lambda>t. Suc (tw t)) ts)"

lemma textsWeight_simps [simp]:
  "textsWeight [] = 0" "textsWeight (t # ts) = Suc (tw t) + textsWeight ts"
  "textsWeight (ts @ us) = textsWeight ts + textsWeight us"
  by (simp_all add: textsWeight_def)

lemma tw_join: "tw (join '','' ts) + (if ts = [] then 0 else 1) \<le> textsWeight ts"
  by (induction "'',''" ts rule: join.induct) (simp_all add: heavy_chars)

lemma tw_bracket:
  assumes "textsWeight ts \<le> W"
  shows "tw ([a] @ join '','' ts @ [b]) \<le> max 2 (1 + W)"
proof (cases "ts = []")
  case True
  then show ?thesis by simp
next
  case False
  with tw_join[of ts] assms have "tw (join '','' ts) + 1 \<le> W" by simp
  then show ?thesis by simp
qed

lemma tw_quoteJSON: "tw (quoteJSON s) = 2 + tw (esc s)"
  by (simp add: quoteJSON_def heavy_chars)

lemma tw_elements:
  assumes "\<And>x t. x \<in> set xs \<Longrightarrow> JSON_stringify x = Some t \<Longrightarrow> tw t \<le> wt x"
  shows "textsWeight (elementTexts xs) \<le> elementsWeight xs"
  using assms
proof (induction xs)
  case Nil
  show ?case by (simp add: elementTexts_simps)
next
  case (Cons x xs)
  have "tw (case JSON_stringify x of None \<Rightarrow> ''null'' | Some t \<Rightarrow> t) \<le> wt x"
  proof (cases "JSON_stringify x")
    case None
    then have "x = JUndefined" by (cases x) auto
    then show ?thesis using None tw_words by simp
  next
    case (Some t)
    then show ?thesis using Cons.prems[of x t] by simp
  qed
  moreover have "textsWeight (elementTexts xs) \<le> elementsWeight xs"
    using Cons.prems by (intro Cons.IH) auto
  ultimately show ?case by (simp add: elementTexts_simps)
qed

lemma tw_entries:
  assumes "\<And>k x t. (k, x) \<in> set ps \<Longrightarrow> JSON_stringify x = Some t \<Longrightarrow> tw t \<le> wt x"
  shows "textsWeight (entryTexts ps) \<le> entriesWeight ps"
  using assms
proof (induction ps)
  case Nil
  show ?case by (simp add: entryTexts_simps)
next
  case (Cons p ps)
  obtain k x where p: "p = (k, x)" by (cases p)
  have "textsWeight (case JSON_stringify x of None \<Rightarrow> [] | Some t \<Rightarrow> [quoteJSON k @ '':'' @ t])
        \<le> 4 + tw (esc k) + wt x"
  proof (cases "JSON_stringify x")
    case None
    then show ?thesis by simp
  next
    case (Some t)
    have "tw t \<le> wt x" using Cons.prems[of k x t] Some p by simp
    then show ?thesis using Some by (simp add: tw_quoteJSON heavy_chars)
  qed
  moreover have "textsWeight (entryTexts ps) \<le> entriesWeight ps"
    using Cons.prems by (intro Cons.IH) auto
  ultimately show ?case unfolding p by (simp add: entryTexts_simps)
qed

lemma tw_stringify: "JSON_stringify v = Some t \<Longrightarrow> tw t \<le> wt v"
proof (induction v arbitrary: t)
  case JUndefined
  then show ?case by simp
next
  case JNull
  then show ?case using tw_words by auto
next
  case (JBool b)
  then show ?case using tw_words by (cases b) auto
next
  case (JNum n)
  then show ?case using tw_words tw_number by (cases n) auto
next
  case (JStr s)
  then show ?case by (auto simp: tw_quoteJSON)
next
  case (JDate d)
  then show ?case by (auto simp: tw_quoteJSON)
next
  case (JArr xs)
  have w: "textsWeight (elementTexts xs) \<le> elementsWeight xs"
    by (rule tw_elements) (rule JArr.IH)
  have t: "t = ''['' @ join '','' (elementTexts xs) @ '']''"
    using JArr.prems unfolding stringify_JArr by simp
  show ?case unfolding t wt_JArr by (rule tw_bracket[OF w])
next
  case (JObj ps)
  have "\<And>k x t. (k, x) \<in> set ps \<Longrightarrow> JSON_stringify x = Some t \<Longrightarrow> tw t \<le> wt x"
    using JObj.IH by (fastforce simp: snds.simps)
  then have w: "textsWeight (entryTexts ps) \<le> entriesWeight ps" by (rule tw_entries)
  have t: "t = ''{'' @ join '','' (entryTexts ps) @ ''}''"
    using JObj.prems unfolding stringify_JObj by simp
  show ?case unfolding t wt_JObj by (rule tw_bracket[OF w])
qed

lemma tw_textualForm: "textualForm v = Some t \<Longrightarrow> tw t \<le> wt v"
proof (cases "isObject v \<and> \<not> isNull v")
  case True
  assume "textualForm v = Some t"
  with True have "JSON_stringify v = Some t" by (simp add: textualForm_def)
  then show ?thesis by (rule tw_stringify)
next
  case False
  assume "textualForm v = Some t"
  with False have t: "t = toString v" by (auto simp: textualForm_def)
  show ?thesis
  proof (cases v)
    case (JNum n)
    then show ?thesis using t tw_words tw_number by (cases n) auto
  next
    case (JStr s)
    then show ?thesis using t tw_escape[of s] by simp
  qed (use t False tw_words in \<open>auto simp: isObject_def isNull_def\<close>)
qed

lemma insertProp_weight:
  "entriesWeight (insertProp k v ps) = 4 + tw (esc k) + wt v + entriesWeight ps"
  by (induction ps) auto

lemma insertProp_set: "set (insertProp k v ps) = insert (k, v) (set ps)"
proof (induction ps)
  case Nil
  show ?case by simp
next
  case (Cons p ps)
  obtain k' v' where p: "p = (k', v')" by (cases p)
  show ?case unfolding p using Cons
    by (cases "isArrayIndex k \<and> (\<not> isArrayIndex k' \<or> numeral_of 10 k < numeral_of 10 k')") auto
qed

lemma insertProp_keys: "fst ` set (insertProp k v ps) = insert k (fst ` set ps)"
  by (simp add: insertProp_set)

lemma insertProp_distinct:
  "k \<notin> fst ` set ps \<Longrightarrow> distinct (map fst ps) \<Longrightarrow> distinct (map fst (insertProp k v ps))"
proof (induction ps)
  case Nil
  show ?case by simp
next
  case (Cons p ps)
  obtain k' v' where p: "p = (k', v')" by (cases p)
  have "k' \<notin> fst ` set (insertProp k v ps)" using Cons.prems unfolding p insertProp_keys by auto
  then show ?case using Cons unfolding p by auto
qed

lemma replace_absent:
  "k \<notin> fst ` set ps \<Longrightarrow> map (\<lambda>(k', v'). if k' = k then (k', v) else (k', v')) ps = ps"
  by (induction ps) auto

lemma replace_weight:
  "distinct (map fst ps) \<Longrightarrow>
   entriesWeight (map (\<lambda>(k', v'). if k' = k then (k', v) else (k', v')) ps) \<le> entriesWeight ps + wt v"
proof (induction ps)
  case Nil
  show ?case by simp
next
  case (Cons p ps)
  obtain k' v' where p: "p = (k', v')" by (cases p)
  show ?case
  proof (cases "k' = k")
    case True
    then have "k \<notin> fst ` set ps" using Cons.prems unfolding p by auto
    from replace_absent[OF this] True show ?thesis unfolding p by simp
  next
    case False
    then show ?thesis using Cons unfolding p by simp
  qed
qed

lemma replace_keys:
  "map fst (map (\<lambda>(k', v'). if k' = k then (k', v) else (k', v')) ps) = map fst ps"
  by (induction ps) auto

lemma setProp_facts:
  assumes "distinct (map fst ps)"
  shows "setProp k v ps \<noteq> []" and "distinct (map fst (setProp k v ps))"
    and "entriesWeight (setProp k v ps) \<le> entriesWeight ps + (4 + tw (esc k) + wt v)"
proof -
  show "setProp k v ps \<noteq> []"
    unfolding setProp_def by (cases ps) (auto split: if_splits)
  show "distinct (map fst (setProp k v ps))"
    unfolding setProp_def using assms insertProp_distinct[of k ps v]
    by (simp add: replace_keys del: map_map)
  show "entriesWeight (setProp k v ps) \<le> entriesWeight ps + (4 + tw (esc k) + wt v)"
    unfolding setProp_def using replace_weight[OF assms, of k v]
    by (simp add: insertProp_weight)
qed

lemma tw_prefix: "prefix p s \<Longrightarrow> tw s = tw p + tw (drop (length p) s)"
  by (auto simp: prefix_def)

lemma tw_skipWs_Cons: "skipWs s = c # r \<Longrightarrow> (if heavy c then 1 else 0) + tw r \<le> tw s"
  using tw_skipWs[of s] by simp

lemma tw_after:
  assumes "startsWith (skipWs r) [c]" "heavy c"
  shows "1 + tw (tl (skipWs r)) \<le> tw r"
  using tw_startsWith[OF assms] tw_skipWs[of r] by simp

lemma word_chars:
  "heavy CHR ''t''" "heavy CHR ''r''" "heavy CHR ''u''" "\<not> heavy CHR ''e''" "\<not> heavy CHR ''f''"
  "\<not> heavy CHR ''a''" "heavy CHR ''l''" "heavy CHR ''s''" "heavy CHR ''n''"
  by (simp_all add: heavy_def)

lemma parseValue_weight_step:
  assumes E: "\<And>s acc xs r. parseElements n s acc = Some (xs, r) \<Longrightarrow>
                 xs \<noteq> [] \<and> elementsWeight xs + tw r \<le> elementsWeight acc + tw s"
      and B: "\<And>s acc ps r. parseMembers n s acc = Some (ps, r) \<Longrightarrow> distinct (map fst acc) \<Longrightarrow>
                 ps \<noteq> [] \<and> entriesWeight ps + tw r \<le> entriesWeight acc + tw s"
      and p: "parseValue (Suc n) s = Some (v, r)"
  shows "wt v + tw r \<le> tw s"
proof -
  from p obtain c r0 where sk: "skipWs s = c # r0"
    by (cases "skipWs s") auto
  note s = tw_skipWs_Cons[OF sk]
  note s0 = tw_skipWs[of s, unfolded sk]
  note p' = p[unfolded parseValue.simps sk list.case]
  consider (obj0) "c = CHR ''{''" "startsWith (skipWs r0) ''}''" "v = JObj []" "r = tl (skipWs r0)"
    | (obj) ps where "c = CHR ''{''" "parseMembers n r0 [] = Some (ps, r)" "v = JObj ps"
    | (arr0) "c = CHR ''[''" "startsWith (skipWs r0) '']''" "v = JArr []" "r = tl (skipWs r0)"
    | (arr) xs where "c = CHR ''[''" "parseElements n r0 [] = Some (xs, r)" "v = JArr xs"
    | (str) t where "c = CHR 0x22" "parseStringBody r0 [] = Some (t, r)" "v = JStr t"
    | (true) "startsWith (c # r0) ''true''" "v = JBool True" "r = drop 4 (c # r0)"
    | (false) "startsWith (c # r0) ''false''" "v = JBool False" "r = drop 5 (c # r0)"
    | (null) "startsWith (c # r0) ''null''" "v = JNull" "r = drop 4 (c # r0)"
    | (num) "isJSONNumber (takeWhile isNumberChar (c # r0))"
        "v = JNum (strDecimalLiteral (takeWhile isNumberChar (c # r0)))"
        "r = dropWhile isNumberChar (c # r0)"
    using p' by (auto split: if_splits)
  then show ?thesis
  proof cases
    case obj0
    from tw_after[OF obj0(2)] s show ?thesis
      unfolding obj0 by (simp add: heavy_chars wt_JObj)
  next
    case obj
    from B[OF obj(2)] s show ?thesis
      unfolding obj by (cases ps) (auto simp: heavy_chars wt_JObj)
  next
    case arr0
    from tw_after[OF arr0(2)] s show ?thesis
      unfolding arr0 by (simp add: heavy_chars wt_JArr)
  next
    case arr
    from E[OF arr(2)] s show ?thesis
      unfolding arr by (cases xs) (auto simp: heavy_chars wt_JArr)
  next
    case str
    from parseStringBody_weight[OF str(2)] s show ?thesis
      unfolding str by (simp add: heavy_chars)
  next
    case true
    have l: "length ''true'' = 4" by simp
    note a = tw_prefix[OF true(1)[unfolded startsWith_def], unfolded l, folded true(3)]
    have "wt v = 3" unfolding true(2) by simp
    with a s0 tw_words show ?thesis by linarith
  next
    case false
    have l: "length ''false'' = 5" by simp
    note a = tw_prefix[OF false(1)[unfolded startsWith_def], unfolded l, folded false(3)]
    have "wt v = 2" unfolding false(2) by simp
    with a s0 tw_words show ?thesis by linarith
  next
    case null
    have l: "length ''null'' = 4" by simp
    note a = tw_prefix[OF null(1)[unfolded startsWith_def], unfolded l, folded null(3)]
    have "wt v = 4" unfolding null(2) by simp
    with a s0 tw_words show ?thesis by linarith
  next
    case num
    from isJSONNumber_Dec[OF num(1)] obtain m e where
      "strDecimalLiteral (takeWhile isNumberChar (c # r0)) = Dec m e" by blast
    with tw_dropWhile[of isNumberChar "c # r0"] s show ?thesis
      unfolding num by (simp split: if_splits)
  qed
qed

lemma parseElements_weight_step:
  assumes V: "\<And>s v r. parseValue n s = Some (v, r) \<Longrightarrow> wt v + tw r \<le> tw s"
      and E: "\<And>s acc xs r. parseElements n s acc = Some (xs, r) \<Longrightarrow>
                 xs \<noteq> [] \<and> elementsWeight xs + tw r \<le> elementsWeight acc + tw s"
      and p: "parseElements (Suc n) s acc = Some (xs, r)"
  shows "xs \<noteq> [] \<and> elementsWeight xs + tw r \<le> elementsWeight acc + tw s"
proof -
  from p obtain v r1 where v: "parseValue n s = Some (v, r1)"
    by (cases "parseValue n s") auto
  note w = V[OF v]
  note p' = p[unfolded parseElements.simps v option.case prod.case]
  consider (more) "startsWith (skipWs r1) '',''" "parseElements n (tl (skipWs r1)) (acc @ [v]) = Some (xs, r)"
    | (last) "startsWith (skipWs r1) '']''" "xs = acc @ [v]" "r = tl (skipWs r1)"
    using p' by (auto split: if_splits)
  then show ?thesis
  proof cases
    case more
    from E[OF more(2)] tw_after[OF more(1)] w show ?thesis by (simp add: heavy_chars)
  next
    case last
    from tw_after[OF last(1)] w show ?thesis unfolding last by (simp add: heavy_chars)
  qed
qed

lemma parseMembers_weight_step:
  assumes V: "\<And>s v r. parseValue n s = Some (v, r) \<Longrightarrow> wt v + tw r \<le> tw s"
      and B: "\<And>s acc ps r. parseMembers n s acc = Some (ps, r) \<Longrightarrow> distinct (map fst acc) \<Longrightarrow>
                 ps \<noteq> [] \<and> entriesWeight ps + tw r \<le> entriesWeight acc + tw s"
      and p: "parseMembers (Suc n) s acc = Some (ps, r)"
      and d: "distinct (map fst acc)"
  shows "ps \<noteq> [] \<and> entriesWeight ps + tw r \<le> entriesWeight acc + tw s"
proof -
  from p have q: "startsWith (skipWs s) [CHR 0x22]" by (auto split: if_splits)
  from p q obtain k r1 where k: "parseStringBody (tl (skipWs s)) [] = Some (k, r1)"
    by (cases "parseStringBody (tl (skipWs s)) []") auto
  from p q k have c: "startsWith (skipWs r1) '':''" by (auto split: if_splits)
  from p q k c obtain v r2 where v: "parseValue n (tl (skipWs r1)) = Some (v, r2)"
    by (cases "parseValue n (tl (skipWs r1))") auto
  note p' = p[unfolded parseMembers.simps k v option.case prod.case]
  note sp = setProp_facts[OF d, of k v]
  have w: "4 + tw (esc k) + wt v + tw r2 \<le> tw s + 1"
    using tw_after[OF q] parseStringBody_weight[OF k] tw_after[OF c] V[OF v]
    by (simp add: heavy_chars)
  consider (more) "startsWith (skipWs r2) '',''" "parseMembers n (tl (skipWs r2)) (setProp k v acc) = Some (ps, r)"
    | (last) "startsWith (skipWs r2) ''}''" "ps = setProp k v acc" "r = tl (skipWs r2)"
    using p' q c by (auto split: if_splits)
  then show ?thesis
  proof cases
    case more
    from B[OF more(2) sp(2)] tw_after[OF more(1)] w sp(3) show ?thesis by (simp add: heavy_chars)
  next
    case last
    from tw_after[OF last(1)] w sp show ?thesis unfolding last by (simp add: heavy_chars)
  qed
qed

lemma parse_weight:
  "(\<forall>s v r. parseValue n s = Some (v, r) \<longrightarrow> wt v + tw r \<le> tw s) \<and>
   (\<forall>s acc xs r. parseElements n s acc = Some (xs, r) \<longrightarrow>
        xs \<noteq> [] \<and> elementsWeight xs + tw r \<le> elementsWeight acc + tw s) \<and>
   (\<forall>s acc ps r. parseMembers n s acc = Some (ps, r) \<longrightarrow> distinct (map fst acc) \<longrightarrow>
        ps \<noteq> [] \<and> entriesWeight ps + tw r \<le> entriesWeight acc + tw s)"
proof (induction n)
  case 0
  show ?case by simp
next
  case (Suc n)
  then have V: "\<And>s v r. parseValue n s = Some (v, r) \<Longrightarrow> wt v + tw r \<le> tw s"
    and E: "\<And>s acc xs r. parseElements n s acc = Some (xs, r) \<Longrightarrow>
                 xs \<noteq> [] \<and> elementsWeight xs + tw r \<le> elementsWeight acc + tw s"
    and B: "\<And>s acc ps r. parseMembers n s acc = Some (ps, r) \<Longrightarrow> distinct (map fst acc) \<Longrightarrow>
                 ps \<noteq> [] \<and> entriesWeight ps + tw r \<le> entriesWeight acc + tw s"
    by blast+
  show ?case
    using parseValue_weight_step[OF E B] parseElements_weight_step[OF V E]
      parseMembers_weight_step[OF V B]
    by blast
qed

lemma JSON_parse_weight: "JSON_parse s = Some v \<Longrightarrow> wt v \<le> tw s"
proof -
  assume "JSON_parse s = Some v"
  then obtain r where "parseValue (Suc (length s)) s = Some (v, r)"
    by (auto simp: JSON_parse_def split: option.splits if_splits)
  with parse_weight[of "Suc (length s)"] have "wt v + tw r \<le> tw s" by blast
  then show ?thesis by simp
qed

text \<open>The measure that decreases along the calls of \<open>normalizeWork\<close>.\<close>

fun workSize :: "work \<Rightarrow> nat" where
  "workSize (Single v) = 2 * wt v + 1"
| "workSize (Elements xs) = 2 * elementsWeight xs"
| "workSize (Entries ps) = sum_list (map (\<lambda>(k, x). 2 * wt x + 2) ps)"

lemma workSize_Entries: "workSize (Entries ps) \<le> 2 * entriesWeight ps"
  by (induction ps) auto

lemma normalize_total_step:
  assumes IH: "\<And>w. workSize w < workSize (Single v) \<Longrightarrow> normalizeWork w \<noteq> None"
  shows "normalize v \<noteq> None"
proof -
  have r1: "normalize parsed \<noteq> None" if "isString v" "JSON_parse (toString v) = Some parsed" for parsed
  proof -
    from that(1) obtain s where v: "v = JStr s" by (cases v) (auto simp: isString_def)
    from JSON_parse_weight[OF that(2)] tw_escape[of s]
    have "workSize (Single parsed) < workSize (Single v)" unfolding v by simp
    from IH[OF this] show ?thesis by (simp add: normalize_def)
  qed
  have r2: "normalizeWork (Elements (case v of JArr xs \<Rightarrow> xs | _ \<Rightarrow> [])) \<noteq> None" if "isArray v"
  proof -
    from that obtain xs where v: "v = JArr xs" by (cases v) (auto simp: isArray_def)
    have "workSize (Elements xs) < workSize (Single v)" unfolding v by (simp add: wt_JArr)
    from IH[OF this] show ?thesis unfolding v by simp
  qed
  have r3: "normalizeWork (Entries ps) \<noteq> None"
    if "textualForm v = Some tmp" "JSON_parse tmp = Some (JObj ps)" for tmp ps
  proof -
    from JSON_parse_weight[OF that(2)] tw_textualForm[OF that(1)] workSize_Entries[of ps]
    have "workSize (Entries ps) < workSize (Single v)" by (simp add: wt_JObj)
    from IH[OF this] show ?thesis .
  qed
  have r4: "normalizeWork (Elements xs) \<noteq> None"
    if "textualForm v = Some tmp" "JSON_parse tmp = Some (JArr xs)" for tmp xs
  proof -
    from JSON_parse_weight[OF that(2)] tw_textualForm[OF that(1)]
    have "workSize (Elements xs) < workSize (Single v)" by (simp add: wt_JArr)
    from IH[OF this] show ?thesis .
  qed
  show ?thesis
  proof (cases "textualForm v")
    case None
    then show ?thesis by (subst normalize_Single) simp
  next
    case (Some tmp)
    show ?thesis
      using r1 r2 r3[OF Some] r4[OF Some]
      by (subst normalize_Single) (auto simp: Some split: option.split jsvalue.split)
  qed
qed

lemma bind_total:
  assumes "A \<noteq> None" "B \<noteq> None"
  shows "Option.bind A (\<lambda>r. case r of Inl e \<Rightarrow> Some (Inl e)
              | Inr y \<Rightarrow> Option.bind B (\<lambda>rs. case rs of Inl e \<Rightarrow> Some (Inl e)
                                              | Inr ys \<Rightarrow> Some (Inr (F y ys)))) \<noteq> None"
  using assms by (auto split: sum.split)

lemma normalizeWork_total: "normalizeWork w \<noteq> None"
proof (induction w rule: measure_induct_rule[of workSize])
  case (less w)
  show ?case
  proof (cases w)
    case (Single v)
    have "normalize v \<noteq> None"
      by (rule normalize_total_step) (rule less.IH, simp add: Single)
    then show ?thesis by (simp add: Single normalize_def)
  next
    case (Elements xs)
    show ?thesis
    proof (cases xs)
      case Nil
      then show ?thesis by (simp add: Elements normalizeWork_Elements_Nil)
    next
      case (Cons x rest)
      have a: "normalize x \<noteq> None" unfolding normalize_def
        by (rule less.IH) (simp add: Elements Cons)
      have b: "normalizeWork (Elements rest) \<noteq> None"
        by (rule less.IH) (simp add: Elements Cons)
      show ?thesis unfolding Elements Cons normalizeWork_Elements_Cons
        by (rule bind_total[OF a b])
    qed
  next
    case (Entries ps)
    show ?thesis
    proof (cases ps)
      case Nil
      then show ?thesis by (simp add: Entries normalizeWork_Entries_Nil)
    next
      case (Cons p rest)
      obtain k x where p: "p = (k, x)" by (cases p)
      have "normalize x \<noteq> None" unfolding normalize_def
        by (rule less.IH) (simp add: Entries Cons p)
      then have a: "(if k = ''dateString'' \<or> k = ''$regex'' then Some (Inr (JStr (toString x)))
                     else normalize x) \<noteq> None" by simp
      have b: "normalizeWork (Entries rest) \<noteq> None"
        by (rule less.IH) (simp add: Entries Cons p)
      show ?thesis unfolding Entries Cons p normalizeWork_Entries_Cons
        by (rule bind_total[OF a b])
    qed
  qed
qed

lemma normalize_total: "\<exists>r. normalize v = Some r"
  using normalizeWork_total[of "Single v"] by (simp add: normalize_def)

section \<open>The first stage of the pipeline\<close>

text \<open>The pairs of the filter argument: a filter that is not a string has none, and \<open>None\<close>
  is a scan that does not end.\<close>

definition filterPairs :: "jsvalue \<Rightarrow> pair list option" where
  "filterPairs ftext = (case ftext of JStr f \<Rightarrow> pairs_from (withComma f) 0 | _ \<Rightarrow> Some [])"

text \<open>The search term that \<open>computePreQuery\<close> normalizes.\<close>

definition searchTerm :: "controller \<Rightarrow> jsvalue \<Rightarrow> jsvalue" where
  "searchTerm c search = (if autoRegExpSearch c then transformRegExpSearch search else search)"

lemma searchFields_forEach_total:
  "\<exists>r. searchFields_forEach fs search sub = Some r \<and>
       (\<forall>e. r = Inl e \<longrightarrow> normalize search = Some (Inl e))"
proof (induction fs arbitrary: sub)
  case Nil
  show ?case by simp
next
  case (Cons f fs)
  from normalize_total[of search] obtain r where r: "normalize search = Some r" by blast
  show ?case
  proof (cases r)
    case (Inl e)
    with r show ?thesis by simp
  next
    case (Inr v)
    with r Cons[of "sub @ [JObj [(f, v)]]"] show ?thesis by simp
  qed
qed

lemma searchConditions_total:
  "\<exists>r. searchConditions c search = Some r \<and>
       (\<forall>e. r = Inl e \<longrightarrow> normalize (searchTerm c search) = Some (Inl e))"
proof -
  from searchFields_forEach_total[of "searchFields c" "searchTerm c search" "[]"]
  obtain r where r: "searchFields_forEach (searchFields c) (searchTerm c search) [] = Some r"
    and e: "\<forall>e. r = Inl e \<longrightarrow> normalize (searchTerm c search) = Some (Inl e)" by blast
  show ?thesis
    unfolding searchConditions_def searchTerm_def[symmetric] using r e
    by (cases r) auto
qed

lemma normalizePairs_total:
  "\<exists>r. normalizePairs ps = Some r \<and>
       (\<forall>e. r = Inl e \<longrightarrow> (\<exists>p \<in> set ps. normalize (JStr (value p)) = Some (Inl e)))"
proof (induction ps)
  case Nil
  show ?case by simp
next
  case (Cons p ps)
  from normalize_total[of "JStr (value p)"] obtain r where r: "normalize (JStr (value p)) = Some r" by blast
  from Cons obtain rs where rs: "normalizePairs ps = Some rs"
    and e: "\<forall>e. rs = Inl e \<longrightarrow> (\<exists>p \<in> set ps. normalize (JStr (value p)) = Some (Inl e))" by blast
  show ?case
  proof (cases r)
    case (Inl e)
    with r show ?thesis by simp
  next
    case (Inr v)
    with r rs e show ?thesis by (cases rs) auto
  qed
qed

lemma computePreQuery_filterPairs:
  assumes "filterPairs ftext = Some ps"
  shows "computePreQuery c search ftext =
     (case searchConditions c search of
        None \<Rightarrow> None
      | Some (Inl e) \<Rightarrow> Some (Inl e)
      | Some (Inr sc) \<Rightarrow>
          (case normalizePairs (filter (\<lambda>p. \<not> hasPostKeyword (postMatchKeywords c) (key p)) ps) of
             None \<Rightarrow> None
           | Some (Inl e) \<Rightarrow> Some (Inl e)
           | Some (Inr xs) \<Rightarrow>
               Some (Inr [Match (if sc @ xs \<noteq> [] then JObj [(''$and'', JArr (sc @ xs))] else JObj [])])))"
proof (cases "\<exists>f. ftext = JStr f")
  case True
  then obtain f where f: "ftext = JStr f" by blast
  with assms have "pairs_from (withComma f) 0 = Some ps" by (simp add: filterPairs_def)
  then show ?thesis unfolding f by (rule computePreQuery_pairs)
next
  case False
  with assms have ps: "ps = []" by (cases ftext) (auto simp: filterPairs_def)
  from False show ?thesis unfolding computePreQuery_search ps
    by (cases ftext) (auto split: option.split sum.split)
qed

lemma computePostQuery_filterPairs:
  assumes "filterPairs ftext = Some ps"
  shows "computePostQuery c ftext =
     (case normalizePairs (filter (\<lambda>p. hasPostKeyword (postMatchKeywords c) (key p)) ps) of
        None \<Rightarrow> None
      | Some (Inl e) \<Rightarrow> Some (Inl e)
      | Some (Inr ys) \<Rightarrow>
          Some (Inr (if ys \<noteq> [] then Some [Match (JObj [(''$and'', JArr ys)])] else None)))"
proof (cases "\<exists>f. ftext = JStr f")
  case True
  then obtain f where f: "ftext = JStr f" by blast
  with assms have "pairs_from (withComma f) 0 = Some ps" by (simp add: filterPairs_def)
  then show ?thesis unfolding f by (rule computePostQuery_pairs)
next
  case False
  with assms have ps: "ps = []" by (cases ftext) (auto simp: filterPairs_def)
  from False show ?thesis unfolding computePostQuery_def ps
    by (cases ftext) auto
qed

lemma computePreQuery_returns:
  assumes "filterPairs ftext = Some ps"
  shows "\<exists>r. computePreQuery c search ftext = Some r \<and>
     (case r of
        Inr b \<Rightarrow> \<exists>opt. b = [Match opt]
      | Inl e \<Rightarrow> \<exists>x. normalize x = Some (Inl e) \<and>
                  (x = searchTerm c search \<or> x \<in> set (map (\<lambda>p. JStr (value p)) ps)))"
proof -
  let ?pre = "filter (\<lambda>p. \<not> hasPostKeyword (postMatchKeywords c) (key p)) ps"
  from searchConditions_total[of c search] obtain rs where
    rs: "searchConditions c search = Some rs"
    and es: "\<forall>e. rs = Inl e \<longrightarrow> normalize (searchTerm c search) = Some (Inl e)" by blast
  from normalizePairs_total[of ?pre] obtain rp where
    rp: "normalizePairs ?pre = Some rp"
    and ep: "\<forall>e. rp = Inl e \<longrightarrow> (\<exists>p \<in> set ?pre. normalize (JStr (value p)) = Some (Inl e))" by blast
  show ?thesis
  proof (cases rs)
    case (Inl e)
    with rs es show ?thesis unfolding computePreQuery_filterPairs[OF assms] by auto
  next
    case sc: (Inr sc)
    show ?thesis
    proof (cases rp)
      case (Inl e)
      with ep obtain p where "p \<in> set ps" "normalize (JStr (value p)) = Some (Inl e)" by auto
      with rs sc rp Inl show ?thesis unfolding computePreQuery_filterPairs[OF assms] by auto
    next
      case (Inr xs)
      with rs sc rp show ?thesis unfolding computePreQuery_filterPairs[OF assms] by simp
    qed
  qed
qed

lemma computePostQuery_returns:
  assumes "filterPairs ftext = Some ps"
  shows "\<exists>r. computePostQuery c ftext = Some r \<and>
     (\<forall>e. r = Inl e \<longrightarrow> (\<exists>x. normalize x = Some (Inl e) \<and> x \<in> set (map (\<lambda>p. JStr (value p)) ps)))"
proof -
  let ?post = "filter (\<lambda>p. hasPostKeyword (postMatchKeywords c) (key p)) ps"
  from normalizePairs_total[of ?post] obtain rp where
    rp: "normalizePairs ?post = Some rp"
    and ep: "\<forall>e. rp = Inl e \<longrightarrow> (\<exists>p \<in> set ?post. normalize (JStr (value p)) = Some (Inl e))" by blast
  show ?thesis
  proof (cases rp)
    case (Inl e)
    with ep obtain p where "p \<in> set ps" "normalize (JStr (value p)) = Some (Inl e)" by auto
    with rp Inl show ?thesis unfolding computePostQuery_filterPairs[OF assms] by auto
  next
    case (Inr ys)
    with rp show ?thesis unfolding computePostQuery_filterPairs[OF assms] by simp
  qed
qed

lemma computePreQuery_shape:
  assumes "computePreQuery c search ftext = Some (Inr b)"
  shows "\<exists>arr. b = [Match (if arr \<noteq> [] then JObj [(''$and'', JArr arr)] else JObj [])]"
proof -
  from assms obtain arr where
    "b = builder_match (if length arr > 0 then JObj [(''$and'', JArr arr)] else JObj []) []"
    unfolding computePreQuery_def by (auto split: option.splits sum.splits)
  then have "b = [Match (if arr \<noteq> [] then JObj [(''$and'', JArr arr)] else JObj [])]"
    by (simp add: builder_match_def)
  then show ?thesis ..
qed

lemma computePipeline_shape:
  assumes "computePipeline c search ftext srt page pageSize = Some (Inr stages)"
  shows "\<exists>b rest. computePreQuery c search ftext = Some (Inr b) \<and> stages = b @ rest"
  using assms unfolding computePipeline_def
  by (auto simp: builder_concat_def Let_def split: option.splits sum.splits)

text \<open>
  Claim C10, as the code has it. Let the scan of the filter end; a filter that is not a
  string has no pairs. Then \<open>computePipeline\<close> returns, for any search, sort, page and
  page size. It returns either a pipeline, whose first stage is the match stage that
  \<open>computePreQuery\<close> returned; or an error that \<open>normalize\<close> raised on the search term or
  on the value of a pair. On any input, a pipeline that \<open>computePipeline\<close> returns is not
  empty and begins with the match stage of \<open>computePreQuery\<close>. When the search gives no
  condition and the pre-classification keeps no pair, the match stage is on the empty
  condition; with all five inputs absent the pipeline is that match stage followed by the
  stages of \<open>buildAggregateBuilder\<close>.
\<close>

theorem computePipeline_begins_with_match:
  "(filterPairs ftext = Some ps \<longrightarrow>
      (\<exists>r. computePipeline c search ftext srt page pageSize = Some r \<and>
          (case r of
             Inr stages \<Rightarrow>
               \<exists>opt rest. computePreQuery c search ftext = Some (Inr [Match opt]) \<and>
                          stages = Match opt # rest
           | Inl e \<Rightarrow>
               \<exists>x. normalize x = Some (Inl e) \<and>
                   (x = searchTerm c search \<or> x \<in> set (map (\<lambda>p. JStr (value p)) ps))))) \<and>
   (computePipeline c search ftext srt page pageSize = Some (Inr stages) \<longrightarrow>
      stages \<noteq> [] \<and>
      (\<exists>opt. hd stages = Match opt \<and> computePreQuery c search ftext = Some (Inr [Match opt]))) \<and>
   (filterPairs ftext = Some ps \<and> searchConditions c search = Some (Inr []) \<and>
    filter (\<lambda>p. \<not> hasPostKeyword (postMatchKeywords c) (key p)) ps = [] \<longrightarrow>
      computePreQuery c search ftext = Some (Inr [Match (JObj [])])) \<and>
   computePreQuery c JUndefined JUndefined = Some (Inr [Match (JObj [])]) \<and>
   computePipeline c JUndefined JUndefined None None None =
      Some (Inr (Match (JObj []) # buildAggregateBuilder c))"
proof (intro conjI impI)
  assume fp: "filterPairs ftext = Some ps"
  from computePreQuery_returns[OF fp, of c search] obtain rpre where
    pre: "computePreQuery c search ftext = Some rpre"
    and cpre: "case rpre of
        Inr b \<Rightarrow> \<exists>opt. b = [Match opt]
      | Inl e \<Rightarrow> \<exists>x. normalize x = Some (Inl e) \<and>
                  (x = searchTerm c search \<or> x \<in> set (map (\<lambda>p. JStr (value p)) ps))" by blast
  from computePostQuery_returns[OF fp, of c] obtain rpost where
    post: "computePostQuery c ftext = Some rpost"
    and cpost: "\<forall>e. rpost = Inl e \<longrightarrow>
        (\<exists>x. normalize x = Some (Inl e) \<and> x \<in> set (map (\<lambda>p. JStr (value p)) ps))" by blast
  show "\<exists>r. computePipeline c search ftext srt page pageSize = Some r \<and>
            (case r of
               Inr stages \<Rightarrow>
                 \<exists>opt rest. computePreQuery c search ftext = Some (Inr [Match opt]) \<and>
                            stages = Match opt # rest
             | Inl e \<Rightarrow>
                 \<exists>x. normalize x = Some (Inl e) \<and>
                     (x = searchTerm c search \<or> x \<in> set (map (\<lambda>p. JStr (value p)) ps)))"
  proof (cases rpre)
    case (Inl e)
    with pre cpre show ?thesis by (simp add: computePipeline_def)
  next
    case b: (Inr b)
    with cpre obtain opt where opt: "b = [Match opt]" by auto
    show ?thesis
    proof (cases rpost)
      case (Inl e)
      with pre b post cpost show ?thesis by (auto simp: computePipeline_def Let_def)
    next
      case (Inr q)
      with pre b opt post show ?thesis
        by (simp add: computePipeline_def Let_def builder_concat_def split: option.split)
    qed
  qed
next
  assume a: "computePipeline c search ftext srt page pageSize = Some (Inr stages)"
  from computePipeline_shape[OF a] obtain b0 rest where
    b: "computePreQuery c search ftext = Some (Inr b0)" and s: "stages = b0 @ rest" by blast
  from computePreQuery_shape[OF b] obtain opt where o: "b0 = [Match opt]" by blast
  with b s show "stages \<noteq> []" by simp
  from o b s
  show "\<exists>opt. hd stages = Match opt \<and> computePreQuery c search ftext = Some (Inr [Match opt])"
    by simp
next
  assume "filterPairs ftext = Some ps \<and> searchConditions c search = Some (Inr []) \<and>
    filter (\<lambda>p. \<not> hasPostKeyword (postMatchKeywords c) (key p)) ps = []"
  then show "computePreQuery c search ftext = Some (Inr [Match (JObj [])])"
    by (simp add: computePreQuery_filterPairs)
next
  show absent: "computePreQuery c JUndefined JUndefined = Some (Inr [Match (JObj [])])"
    by (simp add: computePreQuery_def value_defs builder_defs)
  show "computePipeline c JUndefined JUndefined None None None =
      Some (Inr (Match (JObj []) # buildAggregateBuilder c))"
    by (simp add: computePipeline_def absent computePostQuery_def computeSort_def computeOption_def
          builder_defs)
qed

lemma pairs_from_status:
  "pairs_from ''status:active,'' 0 =
     Some [\<lparr>startIndex = 0, endIndex = 14, key = ''status'', value = ''active''\<rparr>]"
  by (subst pairs_from.simps, simp add: findNextPair_status,
      subst pairs_from.simps, simp add: findNextPair_status)

lemma filterPairs_status:
  "filterPairs (JStr ''status:active,'') =
     Some [\<lparr>startIndex = 0, endIndex = 14, key = ''status'', value = ''active''\<rparr>]"
  by (simp add: filterPairs_def withComma_def endsWith_def pairs_from_status)

theorem computePipeline_begins_with_match_witness:
  "filterPairs (JStr ''status:active,'') =
     Some [\<lparr>startIndex = 0, endIndex = 14, key = ''status'', value = ''active''\<rparr>] \<and>
   computePipeline
     \<lparr>autoRegExpSearch = True, searchFields = [''name'', ''email''], postMatchKeywords = [],
      buildAggregateBuilder = []\<rparr>
     (JStr ''bob'') (JStr ''status:active,'') (Some ''-createdAt'') (Some 1) (Some 5) =
     Some (Inr [Match (JObj [(''$and'', JArr
                 [JObj [(''$or'', JArr [JObj [(''name'', bobCondition True)],
                                       JObj [(''email'', bobCondition True)]])],
                  JObj [(''status'', JStr ''active'')]])]),
                Sort [(''createdAt'', - 1)], Limit 5, Skip 0]) \<and>
   computePreQuery
     \<lparr>autoRegExpSearch = True, searchFields = [''name'', ''email''], postMatchKeywords = [],
      buildAggregateBuilder = []\<rparr>
     (JStr ''bob'') (JStr ''status:active,'') =
     Some (Inr [Match (JObj [(''$and'', JArr
                 [JObj [(''$or'', JArr [JObj [(''name'', bobCondition True)],
                                       JObj [(''email'', bobCondition True)]])],
                  JObj [(''status'', JStr ''active'')]])])]) \<and>
   filterPairs JUndefined = Some [] \<and>
   computePreQuery
     \<lparr>autoRegExpSearch = True, searchFields = [''name'', ''email''], postMatchKeywords = [],
      buildAggregateBuilder = []\<rparr> JUndefined JUndefined = Some (Inr [Match (JObj [])])"
proof -
  let ?c = "\<lparr>autoRegExpSearch = True, searchFields = [''name'', ''email''], postMatchKeywords = [],
      buildAggregateBuilder = []\<rparr>"
  let ?m = "Match (JObj [(''$and'', JArr
                 [JObj [(''$or'', JArr [JObj [(''name'', bobCondition True)],
                                       JObj [(''email'', bobCondition True)]])],
                  JObj [(''status'', JStr ''active'')]])])"
  let ?st = "[?m, Sort [(''createdAt'', - 1)], Limit 5, Skip 0]"
  have e: "filterPairs JUndefined = Some []" by (simp add: filterPairs_def)
  have s: "searchConditions ?c JUndefined = Some (Inr [])"
    by (simp add: searchConditions_def value_defs)
  note t = computePipeline_begins_with_match[of "JStr ''status:active,''"
      "[\<lparr>startIndex = 0, endIndex = 14, key = ''status'', value = ''active''\<rparr>]" ?c "JStr ''bob''"
      "Some ''-createdAt''" "Some 1" "Some 5" ?st]
  from t filterPairs_status
  obtain r where r: "computePipeline ?c (JStr ''bob'') (JStr ''status:active,'') (Some ''-createdAt'')
       (Some 1) (Some 5) = Some r"
    by blast
  have p: "computePipeline ?c (JStr ''bob'') (JStr ''status:active,'') (Some ''-createdAt'') (Some 1) (Some 5) =
     Some (Inr ?st)"
    using r
    by (simp add: computePipeline_def computePreQuery_example computePostQuery_example
        computeSort_createdAt computeOption_example builder_concat_def)
  from t p have "\<exists>opt. hd ?st = Match opt \<and>
      computePreQuery ?c (JStr ''bob'') (JStr ''status:active,'') = Some (Inr [Match opt])"
    by blast
  then have q: "computePreQuery ?c (JStr ''bob'') (JStr ''status:active,'') = Some (Inr [?m])"
    by simp
  from computePipeline_begins_with_match[of JUndefined "[]" ?c JUndefined None None None] e s
  have u: "computePreQuery ?c JUndefined JUndefined = Some (Inr [Match (JObj [])])" by simp
  show ?thesis
    using p q u e filterPairs_status by simp
qed

lemma normalize_function: "normalize (JStr ''$function'') = Some (Inl InvalidOperator)"
  by (simp add: normalize_Single value_defs)

text \<open>
  Claim C10 as stated fails. On the filter \<open>abc\<close> the call does not return, and with the
  search \<open>$function\<close> it raises the invalid-operator error: neither gives a pipeline.
\<close>

theorem computePipeline_begins_with_match_counterexample:
  "computePipeline
     \<lparr>autoRegExpSearch = False, searchFields = [], postMatchKeywords = [],
      buildAggregateBuilder = []\<rparr> JUndefined (JStr ''abc'') None None None = None \<and>
   computePipeline
     \<lparr>autoRegExpSearch = False, searchFields = [''name''], postMatchKeywords = [],
      buildAggregateBuilder = []\<rparr> (JStr ''$function'') JUndefined None None None =
     Some (Inl InvalidOperator)"
proof -
  have "searchConditions \<lparr>autoRegExpSearch = False, searchFields = [], postMatchKeywords = [],
      buildAggregateBuilder = []\<rparr> JUndefined = Some (Inr [])"
    by (simp add: searchConditions_def)
  from computePreQuery_abc[OF this] have a: "computePipeline
     \<lparr>autoRegExpSearch = False, searchFields = [], postMatchKeywords = [],
      buildAggregateBuilder = []\<rparr> JUndefined (JStr ''abc'') None None None = None"
    by (simp add: computePipeline_def)
  have "computePreQuery \<lparr>autoRegExpSearch = False, searchFields = [''name''], postMatchKeywords = [],
      buildAggregateBuilder = []\<rparr> (JStr ''$function'') JUndefined = Some (Inl InvalidOperator)"
    by (simp add: computePreQuery_def value_defs isExist_def normalize_function)
  then have b: "computePipeline
     \<lparr>autoRegExpSearch = False, searchFields = [''name''], postMatchKeywords = [],
      buildAggregateBuilder = []\<rparr> (JStr ''$function'') JUndefined None None None =
     Some (Inl InvalidOperator)"
    by (simp add: computePipeline_def)
  from a b show ?thesis by simp
qed

end
